theory Spec2Isabelle
  imports Main "HOL-Library.Word"
begin

section \<open>JavaScript values, errors and buffers\<close>

text \<open>
  The server is one file, \<^verbatim>\<open>server.js\<close>. Its two core functions talk to two
  remote services: \<^verbatim>\<open>collectDriveFiles\<close> reads a Google Drive tree and
  \<^verbatim>\<open>createGitHubRepoAndPush\<close> builds one commit on GitHub. The request
  handler \<^verbatim>\<open>app.post("/create-repo")\<close> runs the first and then the second.

  A rejected promise or a thrown exception is a value of \<open>js_error\<close>:
  \<open>Error m\<close> is \<^verbatim>\<open>new Error(m)\<close> thrown by the server itself,
  \<open>TypeError m\<close> is what the JavaScript runtime throws on a property access on
  \<^verbatim>\<open>undefined\<close>/\<^verbatim>\<open>null\<close> or on a call of a non-function, and
  \<open>Rejected m\<close> is the rejection of a library call (a Drive request, a
  \<^verbatim>\<open>fetch\<close>, reading or parsing a response body).
\<close>

datatype js_error = Error string | TypeError string | Rejected string

text \<open>
  The values that a parsed JSON body or a parsed form can hold, with \<^verbatim>\<open>undefined\<close>
  for an absent property. Numbers are integers here; the server only tests them for
  truthiness.
\<close>

datatype jsval =
    JUndefined
  | JNull
  | JBool bool
  | JNum int
  | JStr string
  | JArr "jsval list"
  | JObj "(string \<times> jsval) list"

text \<open>Truthiness, as \<^verbatim>\<open>if (x)\<close> and \<^verbatim>\<open>!x\<close> read it.\<close>

fun truthy :: "jsval \<Rightarrow> bool" where
  "truthy JUndefined = False"
| "truthy JNull = False"
| "truthy (JBool b) = b"
| "truthy (JNum n) = (n \<noteq> 0)"
| "truthy (JStr s) = (s \<noteq> [])"
| "truthy (JArr xs) = True"
| "truthy (JObj kvs) = True"

text \<open>
  Property read \<^verbatim>\<open>v.k\<close> for the keys the server uses (\<^verbatim>\<open>owner\<close>,
  \<^verbatim>\<open>login\<close>, \<^verbatim>\<open>sha\<close>, \<^verbatim>\<open>html_url\<close>): a TypeError on
  \<^verbatim>\<open>undefined\<close> and \<^verbatim>\<open>null\<close>, the stored value on an object
  that has the key, \<^verbatim>\<open>undefined\<close> otherwise.
\<close>

fun js_get :: "jsval \<Rightarrow> string \<Rightarrow> js_error + jsval" where
  "js_get JUndefined k = Inl (TypeError (''Cannot read properties of undefined (reading '' @ k @ '')''))"
| "js_get JNull k = Inl (TypeError (''Cannot read properties of null (reading '' @ k @ '')''))"
| "js_get (JObj kvs) k = Inr (case map_of kvs k of Some v \<Rightarrow> v | None \<Rightarrow> JUndefined)"
| "js_get v k = Inr JUndefined"

text \<open>A Node \<^verbatim>\<open>Buffer\<close> is a list of bytes.\<close>

type_synonym buffer = "8 word list"

text \<open>\<^verbatim>\<open>buf.toString("base64")\<close>: the standard alphabet, padded with \<open>=\<close>.\<close>

definition b64_digit :: "nat \<Rightarrow> char" where
  "b64_digit n =
     ''ABCDEFGHIJKLMNOPQRSTUVWXYZabcdefghijklmnopqrstuvwxyz0123456789+/'' ! (n mod 64)"

fun toString_base64 :: "buffer \<Rightarrow> string" where
  "toString_base64 [] = []"
| "toString_base64 [a] =
     (let n = unat a * 65536
      in [b64_digit (n div 262144), b64_digit (n div 4096), CHR ''='', CHR ''=''])"
| "toString_base64 [a, b] =
     (let n = unat a * 65536 + unat b * 256
      in [b64_digit (n div 262144), b64_digit (n div 4096), b64_digit (n div 64), CHR ''=''])"
| "toString_base64 (a # b # c # rest) =
     (let n = unat a * 65536 + unat b * 256 + unat c
      in [b64_digit (n div 262144), b64_digit (n div 4096), b64_digit (n div 64), b64_digit n]
         @ toString_base64 rest)"

section \<open>Drive identifiers and the export mapping\<close>

text \<open>
  \<^verbatim>\<open>/[-\w]{25,}/\<close>: the character class is the ASCII letters, the digits,
  the underscore and the hyphen.
\<close>

definition is_id_char :: "char \<Rightarrow> bool" where
  "is_id_char c \<longleftrightarrow>
     (let n = (of_char c :: nat)
      in (65 \<le> n \<and> n \<le> 90) \<or> (97 \<le> n \<and> n \<le> 122) \<or> (48 \<le> n \<and> n \<le> 57)
         \<or> n = 95 \<or> n = 45)"

text \<open>
  \<^verbatim>\<open>linkOrId.match(/[-\w]{25,}/)\<close>: the engine tries each start position from
  the left; at a position the greedy quantifier takes every class character that follows,
  and the attempt succeeds when there are at least 25 of them. The result is the matched
  text (\<^verbatim>\<open>folderMatch[0]\<close>), or \<open>None\<close> for \<^verbatim>\<open>null\<close>.
\<close>

fun match_id :: "string \<Rightarrow> string option" where
  "match_id [] = None"
| "match_id (c # cs) =
     (let run = takeWhile is_id_char (c # cs)
      in if 25 \<le> length run then Some run else match_id cs)"

text \<open>
  \<^verbatim>\<open>extractDriveId\<close>. The argument is whatever the body parser put in
  \<^verbatim>\<open>driveLinkOrId\<close>; a truthy value that is not a string has no
  \<^verbatim>\<open>match\<close> method, and the call throws. The result \<open>None\<close> is
  \<^verbatim>\<open>null\<close>.
\<close>

fun extractDriveId :: "jsval \<Rightarrow> js_error + string option" where
  "extractDriveId (JStr linkOrId) =
     (if linkOrId = [] then Inr None
      else (case match_id linkOrId of
              Some folderMatch \<Rightarrow> Inr (Some folderMatch)
            | None \<Rightarrow> Inr (Some linkOrId)))"
| "extractDriveId v =
     (if \<not> truthy v then Inr None
      else Inl (TypeError ''linkOrId.match is not a function''))"

text \<open>\<^verbatim>\<open>pickExportMimeType\<close>; \<open>None\<close> is \<^verbatim>\<open>null\<close>.\<close>

definition pickExportMimeType :: "string \<Rightarrow> string option" where
  "pickExportMimeType mimeType =
     (if mimeType = ''application/vnd.google-apps.document'' then Some ''text/plain''
      else if mimeType = ''application/vnd.google-apps.spreadsheet'' then Some ''text/csv''
      else if mimeType = ''application/vnd.google-apps.presentation'' then Some ''application/pdf''
      else None)"

section \<open>The collector\<close>

text \<open>
  The Drive service as the collector sees it, a read-only snapshot: the four requests of
  \<^verbatim>\<open>drive.files\<close> that the server issues, each either rejecting or resolving.
  \<open>files_get\<close> is \<^verbatim>\<open>files.get({fileId, fields})\<close>, \<open>files_list\<close> is
  \<^verbatim>\<open>files.list({q, fields, pageToken})\<close>, \<open>files_export\<close> is
  \<^verbatim>\<open>files.export({fileId, mimeType})\<close> and \<open>files_get_media\<close> is
  \<^verbatim>\<open>files.get({fileId, alt: "media"})\<close>.
\<close>

record drive_file =
  f_id :: string
  f_name :: string
  f_mimeType :: string

record list_response =
  nextPageToken :: "string option"
  files :: "drive_file list option"

record drive =
  files_get :: "string \<Rightarrow> js_error + drive_file"
  files_list :: "string \<Rightarrow> string option \<Rightarrow> js_error + list_response"
  files_export :: "string \<Rightarrow> string \<Rightarrow> js_error + buffer"
  files_get_media :: "string \<Rightarrow> js_error + buffer"

record collected =
  path :: string
  buffer :: buffer

text \<open>
  The calls made to Drive are recorded next to the \<^verbatim>\<open>results\<close> array, each with
  the error it rejected with, if any. The record is the state that the closures of
  \<^verbatim>\<open>collectDriveFiles\<close> share; \<open>calls\<close> is the only field the source does not
  have.
\<close>

datatype drive_call =
    FilesGet string
  | FilesList string "string option"
  | FilesExport string string
  | FilesGetMedia string

record cstate =
  results :: "collected list"
  calls :: "(drive_call \<times> js_error option) list"

definition err_of :: "js_error + 'a \<Rightarrow> js_error option" where
  "err_of r = (case r of Inl e \<Rightarrow> Some e | Inr _ \<Rightarrow> None)"

definition record_call :: "drive_call \<Rightarrow> js_error + 'a \<Rightarrow> cstate \<Rightarrow> cstate" where
  "record_call c r st = st\<lparr>calls := calls st @ [(c, err_of r)]\<rparr>"

definition getMeta :: "drive \<Rightarrow> string \<Rightarrow> cstate \<Rightarrow> (js_error + drive_file) \<times> cstate" where
  "getMeta d ident st =
     (let res = files_get d ident in (res, record_call (FilesGet ident) res st))"

definition downloadFileAsBuffer ::
  "drive \<Rightarrow> string \<Rightarrow> string \<Rightarrow> cstate \<Rightarrow> (js_error + buffer) \<times> cstate" where
  "downloadFileAsBuffer d ident mimeType st =
     (case pickExportMimeType mimeType of
        Some exportMime \<Rightarrow>
          (if exportMime \<noteq> [] then
             (let r = files_export d ident exportMime
              in (r, record_call (FilesExport ident exportMime) r st))
           else
             (let r = files_get_media d ident
              in (r, record_call (FilesGetMedia ident) r st)))
      | None \<Rightarrow>
          (let r = files_get_media d ident
           in (r, record_call (FilesGetMedia ident) r st)))"

text \<open>The query string of \<^verbatim>\<open>walkFolder\<close>.\<close>

definition children_query :: "string \<Rightarrow> string" where
  "children_query folderId = [CHR 0x27] @ folderId @ [CHR 0x27] @ '' in parents and trashed=false''"

text \<open>
  Nothing in the source bounds the recursion of \<^verbatim>\<open>walkFolder\<close> or the number
  of pages it requests, so the model runs it on fuel. A run ends in one of three ways: it
  returned a value, it threw, or the fuel ran out before either happened; the last is a
  run cut short, not an outcome of the program.
\<close>

datatype 'a outcome = Returned 'a | Thrown js_error | OutOfFuel

text \<open>
  \<^verbatim>\<open>walkFolder\<close>, with its \<^verbatim>\<open>do ... while (pageToken)\<close> loop as
  \<open>walkFolder_pages\<close> and its \<^verbatim>\<open>for (const f of files)\<close> loop as
  \<open>walkFolder_files\<close>. Each page request takes one unit of fuel. The state returned
  holds the results pushed and the calls made up to the point where the run ended. A page
  token is followed when it is truthy: present and not the empty string.
\<close>

fun walkFolder ::
    "nat \<Rightarrow> drive \<Rightarrow> string \<Rightarrow> string \<Rightarrow> cstate \<Rightarrow> unit outcome \<times> cstate"
  and walkFolder_pages ::
    "nat \<Rightarrow> drive \<Rightarrow> string \<Rightarrow> string \<Rightarrow> string option \<Rightarrow> cstate
       \<Rightarrow> unit outcome \<times> cstate"
  and walkFolder_files ::
    "nat \<Rightarrow> drive \<Rightarrow> string \<Rightarrow> drive_file list \<Rightarrow> cstate \<Rightarrow> unit outcome \<times> cstate"
where
  "walkFolder n d folderId pathPrefix st = walkFolder_pages n d folderId pathPrefix None st"
| "walkFolder_pages 0 d folderId pathPrefix pageToken st = (OutOfFuel, st)"
| "walkFolder_pages (Suc n) d folderId pathPrefix pageToken st =
     (let qRes = files_list d (children_query folderId) pageToken;
          st1 = record_call (FilesList (children_query folderId) pageToken) qRes st
      in case qRes of
           Inl e \<Rightarrow> (Thrown e, st1)
         | Inr page \<Rightarrow>
             (case walkFolder_files n d pathPrefix
                     (case files page of Some fs \<Rightarrow> fs | None \<Rightarrow> []) st1 of
                (OutOfFuel, st2) \<Rightarrow> (OutOfFuel, st2)
              | (Thrown e, st2) \<Rightarrow> (Thrown e, st2)
              | (Returned u, st2) \<Rightarrow>
                  (case nextPageToken page of
                     None \<Rightarrow> (Returned (), st2)
                   | Some tok \<Rightarrow>
                       if tok \<noteq> [] then walkFolder_pages n d folderId pathPrefix (Some tok) st2
                       else (Returned (), st2))))"
| "walkFolder_files n d pathPrefix [] st = (Returned (), st)"
| "walkFolder_files n d pathPrefix (f # fs) st =
     (if f_mimeType f = ''application/vnd.google-apps.folder'' then
        (case walkFolder n d (f_id f) (pathPrefix @ f_name f @ ''/'') st of
           (OutOfFuel, st1) \<Rightarrow> (OutOfFuel, st1)
         | (Thrown e, st1) \<Rightarrow> (Thrown e, st1)
         | (Returned u, st1) \<Rightarrow> walkFolder_files n d pathPrefix fs st1)
      else
        (case downloadFileAsBuffer d (f_id f) (f_mimeType f) st of
           (Inl e, st1) \<Rightarrow> (Thrown e, st1)
         | (Inr buf, st1) \<Rightarrow>
             walkFolder_files n d pathPrefix fs
               (st1\<lparr>results := results st1 @ [\<lparr>path = pathPrefix @ f_name f, buffer = buf\<rparr>]\<rparr>)))"

text \<open>
  \<^verbatim>\<open>collectDriveFiles\<close>. The array is returned only when nothing threw; the
  calls made are given in every case.
\<close>

definition collectDriveFiles ::
  "nat \<Rightarrow> drive \<Rightarrow> string
     \<Rightarrow> collected list outcome \<times> (drive_call \<times> js_error option) list" where
  "collectDriveFiles n d driveId =
     (let st0 = \<lparr>results = [], calls = []\<rparr>
      in case getMeta d driveId st0 of
           (Inl e, st1) \<Rightarrow> (Thrown e, calls st1)
         | (Inr meta, st1) \<Rightarrow>
             if f_mimeType meta = ''application/vnd.google-apps.folder'' then
               (case walkFolder n d driveId (f_name meta @ ''/'') st1 of
                  (OutOfFuel, st2) \<Rightarrow> (OutOfFuel, calls st2)
                | (Thrown e, st2) \<Rightarrow> (Thrown e, calls st2)
                | (Returned u, st2) \<Rightarrow> (Returned (results st2), calls st2))
             else
               (case downloadFileAsBuffer d driveId (f_mimeType meta) st1 of
                  (Inl e, st2) \<Rightarrow> (Thrown e, calls st2)
                | (Inr buf, st2) \<Rightarrow>
                    (Returned (results st2 @ [\<lparr>path = f_name meta, buffer = buf\<rparr>]), calls st2)))"

section \<open>The publisher\<close>

text \<open>
  The five requests that \<^verbatim>\<open>createGitHubRepoAndPush\<close> sends, all of them POST:
  \<^item> \<open>CreateRepo name\<close> to \<^verbatim>\<open>/user/repos\<close>;
  \<^item> \<open>CreateBlob owner repo content\<close> to \<^verbatim>\<open>/repos/owner/repo/git/blobs\<close>,
    the content in base64;
  \<^item> \<open>CreateTree owner repo items\<close> to \<^verbatim>\<open>/repos/owner/repo/git/trees\<close>;
  \<^item> \<open>CreateCommit owner repo message tree\<close> to \<^verbatim>\<open>/repos/owner/repo/git/commits\<close>;
  \<^item> \<open>CreateRef owner repo ref sha\<close> to \<^verbatim>\<open>/repos/owner/repo/git/refs\<close>.
  The owner and the object names are whatever the previous responses held, so they are
  \<open>jsval\<close>s. Every request carries the same headers, built from the token.
\<close>

record tree_item =
  ti_path :: string
  ti_mode :: string
  ti_type :: string
  ti_sha :: jsval

datatype gh_call =
    CreateRepo string
  | CreateBlob jsval string string
  | CreateTree jsval string "tree_item list"
  | CreateCommit jsval string string jsval
  | CreateRef jsval string string jsval

record gh_request =
  token :: string
  call :: gh_call

text \<open>
  A response as \<^verbatim>\<open>node-fetch\<close> presents it: the \<^verbatim>\<open>ok\<close> flag, and what
  \<^verbatim>\<open>text()\<close> and \<^verbatim>\<open>json()\<close> resolve to or reject with.
\<close>

record gh_response =
  ok :: bool
  text_body :: "js_error + string"
  json_body :: "js_error + jsval"

text \<open>
  The hosting service is a state machine: \<^verbatim>\<open>fetch\<close> either rejects or resolves,
  and changes the service. The publisher's state is the service together with the list
  of the calls made so far, each with its outcome; the list is the only part the source
  does not have.
\<close>

type_synonym 's fetch = "'s \<Rightarrow> gh_request \<Rightarrow> (js_error + gh_response) \<times> 's"

type_synonym gh_event = "gh_request \<times> (js_error + gh_response)"

record 's pstate =
  service :: 's
  trace :: "gh_event list"

definition do_fetch ::
  "'s fetch \<Rightarrow> gh_request \<Rightarrow> 's pstate \<Rightarrow> (js_error + gh_response) \<times> 's pstate" where
  "do_fetch fetch req st =
     (case fetch (service st) req of
        (r, s') \<Rightarrow> (r, \<lparr>service = s', trace = trace st @ [(req, r)]\<rparr>))"

text \<open>
  \<^verbatim>\<open>const txt = await res.text(); throw new Error(msg + txt)\<close>, the branch taken
  on a response that is not ok.
\<close>

definition throw_failed :: "string \<Rightarrow> gh_response \<Rightarrow> js_error" where
  "throw_failed msg res = (case text_body res of Inl e \<Rightarrow> e | Inr txt \<Rightarrow> Error (msg @ txt))"

record blob =
  b_path :: string
  b_sha :: jsval

text \<open>The loop \<^verbatim>\<open>for (const f of files)\<close> that creates the blobs.\<close>

fun create_blobs ::
  "'s fetch \<Rightarrow> string \<Rightarrow> jsval \<Rightarrow> string \<Rightarrow> collected list \<Rightarrow> blob list \<Rightarrow> 's pstate
     \<Rightarrow> (js_error + blob list) \<times> 's pstate" where
  "create_blobs fetch tok owner repoName [] blobs st = (Inr blobs, st)"
| "create_blobs fetch tok owner repoName (f # fs) blobs st =
     (let b64 = toString_base64 (buffer f)
      in case do_fetch fetch \<lparr>token = tok, call = CreateBlob owner repoName b64\<rparr> st of
           (Inl e, st1) \<Rightarrow> (Inl e, st1)
         | (Inr blobRes, st1) \<Rightarrow>
             if \<not> ok blobRes then (Inl (throw_failed ''Failed to create blob: '' blobRes), st1)
             else (case json_body blobRes of
                     Inl e \<Rightarrow> (Inl e, st1)
                   | Inr blobJson \<Rightarrow>
                       (case js_get blobJson ''sha'' of
                          Inl e \<Rightarrow> (Inl e, st1)
                        | Inr sha \<Rightarrow>
                            create_blobs fetch tok owner repoName fs
                              (blobs @ [\<lparr>b_path = path f, b_sha = sha\<rparr>]) st1)))"

definition treeItem :: "blob \<Rightarrow> tree_item" where
  "treeItem b = \<lparr>ti_path = b_path b, ti_mode = ''100644'', ti_type = ''blob'', ti_sha = b_sha b\<rparr>"

definition commit_message :: string where
  "commit_message =
     ''Initial commit '' @ [CHR 0xE2, CHR 0x80, CHR 0x94] @ '' import from Google Drive''"

text \<open>
  The part of \<^verbatim>\<open>createGitHubRepoAndPush\<close> after the blob loop, one definition
  for each request: the tree, then the commit, then the reference and the value returned.
\<close>

definition push_ref ::
  "'s fetch \<Rightarrow> string \<Rightarrow> jsval \<Rightarrow> string \<Rightarrow> jsval \<Rightarrow> jsval \<Rightarrow> 's pstate
     \<Rightarrow> (js_error + jsval) \<times> 's pstate" where
  "push_ref fetch tok owner repoName repoJson commitSha st =
     (case do_fetch fetch
             \<lparr>token = tok, call = CreateRef owner repoName ''refs/heads/main'' commitSha\<rparr> st of
        (Inl e, st1) \<Rightarrow> (Inl e, st1)
      | (Inr refRes, st1) \<Rightarrow>
          if \<not> ok refRes then (Inl (throw_failed ''Failed to create ref: '' refRes), st1)
          else (case js_get repoJson ''html_url'' of
                  Inl e \<Rightarrow> (Inl e, st1)
                | Inr url \<Rightarrow> (Inr (JObj [(''html_url'', url)]), st1)))"

definition push_commit ::
  "'s fetch \<Rightarrow> string \<Rightarrow> jsval \<Rightarrow> string \<Rightarrow> jsval \<Rightarrow> jsval \<Rightarrow> 's pstate
     \<Rightarrow> (js_error + jsval) \<times> 's pstate" where
  "push_commit fetch tok owner repoName repoJson treeSha st =
     (case do_fetch fetch
             \<lparr>token = tok, call = CreateCommit owner repoName commit_message treeSha\<rparr> st of
        (Inl e, st1) \<Rightarrow> (Inl e, st1)
      | (Inr commitRes, st1) \<Rightarrow>
          if \<not> ok commitRes then
            (Inl (throw_failed ''Failed to create commit: '' commitRes), st1)
          else (case json_body commitRes of
                  Inl e \<Rightarrow> (Inl e, st1)
                | Inr commitJson \<Rightarrow>
                    (case js_get commitJson ''sha'' of
                       Inl e \<Rightarrow> (Inl e, st1)
                     | Inr commitSha \<Rightarrow>
                         push_ref fetch tok owner repoName repoJson commitSha st1)))"

definition push_tree ::
  "'s fetch \<Rightarrow> string \<Rightarrow> jsval \<Rightarrow> string \<Rightarrow> jsval \<Rightarrow> blob list \<Rightarrow> 's pstate
     \<Rightarrow> (js_error + jsval) \<times> 's pstate" where
  "push_tree fetch tok owner repoName repoJson blobs st =
     (let treeItems = map treeItem blobs
      in case do_fetch fetch \<lparr>token = tok, call = CreateTree owner repoName treeItems\<rparr> st of
           (Inl e, st1) \<Rightarrow> (Inl e, st1)
         | (Inr treeRes, st1) \<Rightarrow>
             if \<not> ok treeRes then (Inl (throw_failed ''Failed to create tree: '' treeRes), st1)
             else (case json_body treeRes of
                     Inl e \<Rightarrow> (Inl e, st1)
                   | Inr treeJson \<Rightarrow>
                       (case js_get treeJson ''sha'' of
                          Inl e \<Rightarrow> (Inl e, st1)
                        | Inr treeSha \<Rightarrow>
                            push_commit fetch tok owner repoName repoJson treeSha st1)))"

text \<open>
  \<^verbatim>\<open>createGitHubRepoAndPush\<close>. The second parameter, \<^verbatim>\<open>ownerOrOrg\<close>, is
  never read. The value returned on success is the object
  \<^verbatim>\<open>{ html_url: repoJson.html_url }\<close>.
\<close>

definition createGitHubRepoAndPush ::
  "'s fetch \<Rightarrow> string \<Rightarrow> jsval \<Rightarrow> string \<Rightarrow> collected list \<Rightarrow> 's pstate
     \<Rightarrow> (js_error + jsval) \<times> 's pstate" where
  "createGitHubRepoAndPush fetch githubToken ownerOrOrg repoName fs st =
     (case do_fetch fetch \<lparr>token = githubToken, call = CreateRepo repoName\<rparr> st of
        (Inl e, st1) \<Rightarrow> (Inl e, st1)
      | (Inr createRes, st1) \<Rightarrow>
          if \<not> ok createRes then (Inl (throw_failed ''Failed to create repo: '' createRes), st1)
          else (case json_body createRes of
                  Inl e \<Rightarrow> (Inl e, st1)
                | Inr repoJson \<Rightarrow>
                    (case js_get repoJson ''owner'' of
                       Inl e \<Rightarrow> (Inl e, st1)
                     | Inr ownerJson \<Rightarrow>
                         (case js_get ownerJson ''login'' of
                            Inl e \<Rightarrow> (Inl e, st1)
                          | Inr owner \<Rightarrow>
                              (case create_blobs fetch githubToken owner repoName fs [] st1 of
                                 (Inl e, st2) \<Rightarrow> (Inl e, st2)
                               | (Inr blobs, st2) \<Rightarrow>
                                   push_tree fetch githubToken owner repoName repoJson
                                     blobs st2)))))"

section \<open>The request handler\<close>

text \<open>
  \<^verbatim>\<open>app.post("/create-repo")\<close>. The request is the session's
  \<^verbatim>\<open>googleTokens\<close> and the three fields of the body, each whatever the body parser
  produced. What the handler does to the response is a list of actions; the pages it
  writes are named rather than spelled out. The \<^verbatim>\<open>catch\<close> block answers with
  status 500 and the error. The result is \<open>None\<close> when the fuel given to the collector
  ran out.
\<close>

record handler_request =
  googleTokens :: jsval
  githubToken :: jsval
  repoName :: jsval
  driveLinkOrId :: jsval

datatype page =
    MustSignIn
  | MissingFields
  | CouldNotExtract
  | Collecting
  | NoFilesFound
  | Collected nat
  | Done jsval

datatype res_action =
    Send nat page
  | SendError nat js_error
  | WriteHead nat
  | Write page
  | End

text \<open>
  \<^verbatim>\<open>x.trim()\<close> on a truthy field: a string loses its leading and trailing white
  space (the ASCII white space here); any other value has no such method.
\<close>

definition is_space :: "char \<Rightarrow> bool" where
  "is_space c \<longleftrightarrow> (of_char c :: nat) \<in> {9, 10, 11, 12, 13, 32}"

definition trim :: "string \<Rightarrow> string" where
  "trim s = rev (dropWhile is_space (rev (dropWhile is_space s)))"

fun js_trim :: "jsval \<Rightarrow> js_error + string" where
  "js_trim (JStr s) = Inr (trim s)"
| "js_trim v = Inl (TypeError ''trim is not a function'')"

record 's handler_result =
  response :: "res_action list"
  drive_calls :: "(drive_call \<times> js_error option) list"
  github :: "'s pstate"

definition create_repo ::
  "nat \<Rightarrow> drive \<Rightarrow> 's fetch \<Rightarrow> 's \<Rightarrow> handler_request \<Rightarrow> 's handler_result option" where
  "create_repo n d fetch s req =
     (let st0 = \<lparr>service = s, trace = []\<rparr>
      in if \<not> truthy (googleTokens req) then
           Some \<lparr>response = [Send 400 MustSignIn], drive_calls = [], github = st0\<rparr>
         else if \<not> truthy (githubToken req) \<or> \<not> truthy (repoName req)
                 \<or> \<not> truthy (driveLinkOrId req) then
           Some \<lparr>response = [Send 400 MissingFields], drive_calls = [], github = st0\<rparr>
         else
           (case extractDriveId (driveLinkOrId req) of
              Inl e \<Rightarrow> Some \<lparr>response = [SendError 500 e], drive_calls = [], github = st0\<rparr>
            | Inr None \<Rightarrow>
                Some \<lparr>response = [Send 400 CouldNotExtract], drive_calls = [], github = st0\<rparr>
            | Inr (Some driveId) \<Rightarrow>
                if driveId = [] then
                  Some \<lparr>response = [Send 400 CouldNotExtract], drive_calls = [], github = st0\<rparr>
                else
                  (case collectDriveFiles n d driveId of
                     (OutOfFuel, log) \<Rightarrow> None
                   | (Thrown e, log) \<Rightarrow>
                       Some \<lparr>response = [WriteHead 200, Write Collecting, SendError 500 e],
                             drive_calls = log, github = st0\<rparr>
                   | (Returned fs, log) \<Rightarrow>
                       if length fs = 0 then
                         Some \<lparr>response = [WriteHead 200, Write Collecting, Write NoFilesFound, End],
                               drive_calls = log, github = st0\<rparr>
                       else
                         (let pre = [WriteHead 200, Write Collecting, Write (Collected (length fs))]
                          in case js_trim (githubToken req) of
                               Inl e \<Rightarrow>
                                 Some \<lparr>response = pre @ [SendError 500 e],
                                       drive_calls = log, github = st0\<rparr>
                             | Inr tok \<Rightarrow>
                                (case js_trim (repoName req) of
                                   Inl e \<Rightarrow>
                                     Some \<lparr>response = pre @ [SendError 500 e],
                                           drive_calls = log, github = st0\<rparr>
                                 | Inr rn \<Rightarrow>
                                    (case createGitHubRepoAndPush fetch tok JNull rn fs st0 of
                                       (Inl e, st1) \<Rightarrow>
                                         Some \<lparr>response = pre @ [SendError 500 e],
                                               drive_calls = log, github = st1\<rparr>
                                     | (Inr result, st1) \<Rightarrow>
                                        (case js_get result ''html_url'' of
                                           Inl e \<Rightarrow>
                                             Some \<lparr>response = pre @ [SendError 500 e],
                                                   drive_calls = log, github = st1\<rparr>
                                         | Inr url \<Rightarrow>
                                             Some \<lparr>response = pre @ [Write (Done url), End],
                                                   drive_calls = log, github = st1\<rparr>)))))))"

section \<open>Notions used to state the properties of the publisher\<close>

text \<open>
  A call has returned successfully when \<^verbatim>\<open>fetch\<close> resolved and the response is ok.
  Each event of the trace is recorded when its call returns, and the publisher awaits
  every call, so a call that comes later in the trace was issued after every earlier one
  had returned.
\<close>

definition succeeded :: "gh_event \<Rightarrow> bool" where
  "succeeded ev = (case snd ev of Inl e \<Rightarrow> False | Inr res \<Rightarrow> ok res)"

text \<open>Which of the five requests an event is.\<close>

datatype call_kind = KRepo | KBlob | KTree | KCommit | KRef

fun kind_of :: "gh_call \<Rightarrow> call_kind" where
  "kind_of (CreateRepo rn) = KRepo"
| "kind_of (CreateBlob ow rn c) = KBlob"
| "kind_of (CreateTree ow rn its) = KTree"
| "kind_of (CreateCommit ow rn m t) = KCommit"
| "kind_of (CreateRef ow rn rf c) = KRef"

definition kind :: "gh_event \<Rightarrow> call_kind" where
  "kind ev = kind_of (call (fst ev))"

text \<open>The blob request that the loop sends for a file.\<close>

definition blob_request :: "string \<Rightarrow> jsval \<Rightarrow> string \<Rightarrow> collected \<Rightarrow> gh_request" where
  "blob_request tok owner rn f = \<lparr>token = tok, call = CreateBlob owner rn (toString_base64 (buffer f))\<rparr>"

text \<open>
  What the trace can hold after the blob loop: the tree request, then the commit request
  if the tree request succeeded, then the reference request if the commit request
  succeeded.
\<close>

definition tree_tail :: "js_error + jsval \<Rightarrow> gh_event list \<Rightarrow> bool" where
  "tree_tail r t \<longleftrightarrow>
     (\<exists>e1 t1. t = e1 # t1 \<and> kind e1 = KTree
        \<and> (t1 = [] \<and> (\<forall>v. r \<noteq> Inr v)
           \<or> succeeded e1 \<and> (\<exists>e2 t2. t1 = e2 # t2 \<and> kind e2 = KCommit
                \<and> (t2 = [] \<and> (\<forall>v. r \<noteq> Inr v)
                   \<or> succeeded e2 \<and> (\<exists>e3. t2 = [e3] \<and> kind e3 = KRef
                         \<and> ((\<exists>v. r = Inr v) \<longrightarrow> succeeded e3))))))"

subsection \<open>A concrete hosting service\<close>

text \<open>
  Two files, and a service that accepts every request and names the objects it creates
  by a counter; a second service refuses its third request, the second blob.
\<close>

definition demo_files :: "collected list" where
  "demo_files =
     [\<lparr>path = ''proj/docs/budget'', buffer = [97, 44, 98]\<rparr>,
      \<lparr>path = ''proj/logo.png'', buffer = [137, 80, 78, 71]\<rparr>]"

definition demo_repo_json :: "string \<Rightarrow> jsval" where
  "demo_repo_json name =
     JObj [(''owner'', JObj [(''login'', JStr ''octo'')]),
           (''html_url'', JStr (''https://github.com/octo/'' @ name))]"

definition demo_fetch :: "nat fetch" where
  "demo_fetch n req =
     (case call req of
        CreateRepo name \<Rightarrow>
          (Inr \<lparr>ok = True, text_body = Inr [], json_body = Inr (demo_repo_json name)\<rparr>, Suc n)
      | _ \<Rightarrow>
          (Inr \<lparr>ok = True, text_body = Inr [],
                json_body = Inr (JObj [(''sha'', JStr (replicate (Suc n) CHR ''a''))])\<rparr>, Suc n))"

definition demo_fetch_blob_fails :: "nat fetch" where
  "demo_fetch_blob_fails n req =
     (if n = 2 then
        (Inr \<lparr>ok = False, text_body = Inr ''Bad credentials'', json_body = Inr JNull\<rparr>, Suc n)
      else demo_fetch n req)"

definition demo_run :: "(js_error + jsval) \<times> nat pstate" where
  "demo_run = createGitHubRepoAndPush demo_fetch ''ghp'' JNull ''mirror'' demo_files
                \<lparr>service = 0, trace = []\<rparr>"

definition demo_run_blob_fails :: "(js_error + jsval) \<times> nat pstate" where
  "demo_run_blob_fails = createGitHubRepoAndPush demo_fetch_blob_fails ''ghp'' JNull ''mirror'' demo_files
                \<lparr>service = 0, trace = []\<rparr>"

definition demo_ok :: "jsval \<Rightarrow> js_error + gh_response" where
  "demo_ok j = Inr \<lparr>ok = True, text_body = Inr [], json_body = Inr j\<rparr>"

section \<open>Notions used to state the properties of the collector\<close>

subsection \<open>Source trees and the paths the specification gives them\<close>

text \<open>
  A source tree: a leaf has a name and the bytes the collector obtains for it, a container
  has a name and children.
\<close>

datatype src_tree = Leaf string buffer | Container string "src_tree list"

text \<open>
  The flat collection the specification prescribes (section 4.1, steps 2 to 4): a leaf
  gives one entry, the prefix followed by its name; a container gives the entries of its
  children, in order, under the prefix extended by its name and the separator.
\<close>

fun flatten :: "string \<Rightarrow> src_tree \<Rightarrow> collected list" where
  "flatten prefix (Leaf name buf) = [\<lparr>path = prefix @ name, buffer = buf\<rparr>]"
| "flatten prefix (Container name ts) = concat (map (flatten (prefix @ name @ ''/'')) ts)"

text \<open>
  The same paths, segment by segment: for each leaf, in the same order, the names from
  the root of the tree down to the leaf; and a list of segments joined by \<open>/\<close>.
\<close>

fun leaf_segments :: "src_tree \<Rightarrow> string list list" where
  "leaf_segments (Leaf name buf) = [[name]]"
| "leaf_segments (Container name ts) = map ((#) name) (concat (map leaf_segments ts))"

fun join_path :: "string list \<Rightarrow> string" where
  "join_path [] = []"
| "join_path [s] = s"
| "join_path (s # ss) = s @ ''/'' @ join_path ss"

fun name_of :: "src_tree \<Rightarrow> string" where
  "name_of (Leaf name buf) = name"
| "name_of (Container name ts) = name"

text \<open>
  In every container the children's names are pairwise distinct and none contains the
  separator.
\<close>

fun distinct_names :: "src_tree \<Rightarrow> bool" where
  "distinct_names (Leaf name buf) = True"
| "distinct_names (Container name ts) =
     (distinct (map name_of ts)
      \<and> (\<forall>t \<in> set ts. CHR ''/'' \<notin> set (name_of t) \<and> distinct_names t))"

subsection \<open>A Drive that serves a tree\<close>

text \<open>
  The files of a page, and the token of the page after it: a token is present when the
  response has one and it is not the empty string, which is when
  \<^verbatim>\<open>while (pageToken)\<close> goes round again.
\<close>

definition page_files :: "list_response \<Rightarrow> drive_file list" where
  "page_files page = (case files page of Some fs \<Rightarrow> fs | None \<Rightarrow> [])"

definition next_token :: "list_response \<Rightarrow> string option" where
  "next_token page = (case nextPageToken page of None \<Rightarrow> None | Some tok \<Rightarrow> if tok \<noteq> [] then Some tok else None)"

text \<open>
  \<open>listing d folderId tok pages\<close>: requested from the token \<open>tok\<close> on, the child listing
  of the folder is the pages \<open>pages\<close>, each page reached by the token of the page before
  it, and the last page has no token.
\<close>

inductive listing :: "drive \<Rightarrow> string \<Rightarrow> string option \<Rightarrow> drive_file list list \<Rightarrow> bool"
  for d :: drive and folderId :: string where
  last_page:
    "files_list d (children_query folderId) tok = Inr page \<Longrightarrow> next_token page = None
     \<Longrightarrow> listing d folderId tok [page_files page]"
| next_page:
    "files_list d (children_query folderId) tok = Inr page \<Longrightarrow> next_token page = Some t
     \<Longrightarrow> listing d folderId (Some t) pages
     \<Longrightarrow> listing d folderId tok (page_files page # pages)"

text \<open>What downloading a file yields, whatever the state of the collector.\<close>

definition leaf_content :: "drive \<Rightarrow> drive_file \<Rightarrow> js_error + buffer" where
  "leaf_content d f = fst (downloadFileAsBuffer d (f_id f) (f_mimeType f) \<lparr>results = [], calls = []\<rparr>)"

text \<open>
  \<open>serves d f t\<close>: behind the entry \<open>f\<close>, Drive holds the tree \<open>t\<close>. A file that is not
  a folder is a leaf with the bytes its download yields; a folder is a container whose
  children are the trees behind the entries of all the pages of its listing.
\<close>

inductive serves :: "drive \<Rightarrow> drive_file \<Rightarrow> src_tree \<Rightarrow> bool" for d :: drive where
  leaf:
    "f_mimeType f \<noteq> ''application/vnd.google-apps.folder'' \<Longrightarrow> leaf_content d f = Inr buf
     \<Longrightarrow> serves d f (Leaf (f_name f) buf)"
| container:
    "f_mimeType f = ''application/vnd.google-apps.folder'' \<Longrightarrow> listing d (f_id f) None pages
     \<Longrightarrow> list_all2 (serves d) (concat pages) ts
     \<Longrightarrow> serves d f (Container (f_name f) ts)"

text \<open>
  With enough fuel, walking the one entry \<open>f\<close> returns normally and appends the entries
  of \<open>t\<close> to \<^verbatim>\<open>results\<close>.
\<close>

definition emits :: "drive \<Rightarrow> drive_file \<Rightarrow> src_tree \<Rightarrow> bool" where
  "emits d f t \<longleftrightarrow>
     (\<exists>n0. \<forall>n\<ge>n0. \<forall>p st. \<exists>st'. walkFolder_files n d p [f] st = (Returned (), st')
          \<and> results st' = results st @ flatten p t)"

subsection \<open>The record of the calls\<close>

text \<open>
  The calls added by a step agree with its outcome: none failed when the step returned
  or was cut short; when it threw, the last call failed, with the error thrown, and no
  other did.
\<close>

definition log_consistent :: "'a outcome \<Rightarrow> (drive_call \<times> js_error option) list \<Rightarrow> bool" where
  "log_consistent res new \<longleftrightarrow>
     (case res of
        Returned v \<Rightarrow> list_all (\<lambda>c. snd c = None) new
      | OutOfFuel \<Rightarrow> list_all (\<lambda>c. snd c = None) new
      | Thrown e \<Rightarrow> new \<noteq> [] \<and> snd (last new) = Some e \<and> list_all (\<lambda>c. snd c = None) (butlast new))"

definition extends_log :: "cstate \<Rightarrow> 'a outcome \<Rightarrow> cstate \<Rightarrow> bool" where
  "extends_log st res st' \<longleftrightarrow> (\<exists>new. calls st' = calls st @ new \<and> log_consistent res new)"

subsection \<open>Long runs of identifier characters\<close>

text \<open>
  A run of 25 or more identifier characters somewhere in the string; and the first
  maximal one: it cannot be extended on either side, and no such run lies before it.
\<close>

definition has_long_run :: "string \<Rightarrow> bool" where
  "has_long_run s \<longleftrightarrow>
     (\<exists>pre m post. s = pre @ m @ post \<and> 25 \<le> length m \<and> list_all is_id_char m)"

definition first_long_run :: "string \<Rightarrow> string \<Rightarrow> bool" where
  "first_long_run s m \<longleftrightarrow>
     (\<exists>pre post. s = pre @ m @ post \<and> 25 \<le> length m \<and> list_all is_id_char m
        \<and> (pre = [] \<or> \<not> is_id_char (last pre))
        \<and> (post = [] \<or> \<not> is_id_char (hd post))
        \<and> \<not> has_long_run pre)"

subsection \<open>Concrete Drives and requests\<close>

text \<open>
  The Drive of the end-to-end scenario of the specification: the folder \<open>proj\<close> holds the
  folder \<open>docs\<close>, which holds the native spreadsheet \<open>budget\<close>, and the image
  \<open>logo.png\<close>. The listing of \<open>proj\<close> comes in three pages, the second one empty.
\<close>

definition folder_file :: "string \<Rightarrow> string \<Rightarrow> drive_file" where
  "folder_file i n = \<lparr>f_id = i, f_name = n, f_mimeType = ''application/vnd.google-apps.folder''\<rparr>"

definition logo_file :: drive_file where
  "logo_file = \<lparr>f_id = ''f2'', f_name = ''logo.png'', f_mimeType = ''image/png''\<rparr>"

definition budget_file :: drive_file where
  "budget_file = \<lparr>f_id = ''f1'', f_name = ''budget'',
                   f_mimeType = ''application/vnd.google-apps.spreadsheet''\<rparr>"

definition demo_drive :: drive where
  "demo_drive =
     \<lparr>files_get = (\<lambda>i. if i = ''root'' then Inr (folder_file ''root'' ''proj'')
                         else Inl (Rejected ''File not found'')),
      files_list = (\<lambda>q tok.
         if q = children_query ''root'' then
           (if tok = None then
              Inr \<lparr>nextPageToken = Some ''p2'', files = Some [folder_file ''d1'' ''docs'']\<rparr>
            else if tok = Some ''p2'' then
              Inr \<lparr>nextPageToken = Some ''p3'', files = None\<rparr>
            else if tok = Some ''p3'' then
              Inr \<lparr>nextPageToken = None,
                   files = Some [\<lparr>f_id = ''f2'', f_name = ''logo.png'', f_mimeType = ''image/png''\<rparr>]\<rparr>
            else Inl (Rejected ''Invalid page token''))
         else if q = children_query ''d1'' \<and> tok = None then
           Inr \<lparr>nextPageToken = Some [],
                files = Some [\<lparr>f_id = ''f1'', f_name = ''budget'',
                              f_mimeType = ''application/vnd.google-apps.spreadsheet''\<rparr>]\<rparr>
         else Inl (Rejected ''Invalid query'')),
      files_export = (\<lambda>i m. if i = ''f1'' \<and> m = ''text/csv'' then Inr [97, 44, 98]
                            else Inl (Rejected ''Export not supported'')),
      files_get_media = (\<lambda>i. if i = ''f2'' then Inr [137, 80, 78, 71]
                              else Inl (Rejected ''File not found''))\<rparr>"

definition demo_tree :: src_tree where
  "demo_tree =
     Container ''proj''
       [Container ''docs'' [Leaf ''budget'' [97, 44, 98]], Leaf ''logo.png'' [137, 80, 78, 71]]"

definition demo_drive_log :: "(drive_call \<times> js_error option) list" where
  "demo_drive_log =
     [(FilesGet ''root'', None),
      (FilesList (children_query ''root'') None, None),
      (FilesList (children_query ''d1'') None, None),
      (FilesExport ''f1'' ''text/csv'', None),
      (FilesList (children_query ''root'') (Some ''p2''), None),
      (FilesList (children_query ''root'') (Some ''p3''), None),
      (FilesGetMedia ''f2'', None)]"

text \<open>The same Drive, refusing every download of raw bytes.\<close>

definition failing_drive :: drive where
  "failing_drive = demo_drive\<lparr>files_get_media := (\<lambda>i. Inl (Rejected ''Forbidden''))\<rparr>"

text \<open>A folder with two files of the same name, and an empty folder.\<close>

definition dup_drive :: drive where
  "dup_drive =
     \<lparr>files_get = (\<lambda>i. Inr (folder_file i ''R'')),
      files_list = (\<lambda>q tok. Inr \<lparr>nextPageToken = None,
         files = Some [\<lparr>f_id = ''a'', f_name = ''L'', f_mimeType = ''text/plain''\<rparr>,
                       \<lparr>f_id = ''b'', f_name = ''L'', f_mimeType = ''text/plain''\<rparr>]\<rparr>),
      files_export = (\<lambda>i m. Inl (Rejected ''Export not supported'')),
      files_get_media = (\<lambda>i. if i = ''a'' then Inr [1] else Inr [2])\<rparr>"

definition empty_drive :: drive where
  "empty_drive =
     \<lparr>files_get = (\<lambda>i. Inr (folder_file i ''E'')),
      files_list = (\<lambda>q tok. Inr \<lparr>nextPageToken = None, files = Some []\<rparr>),
      files_export = (\<lambda>i m. Inl (Rejected ''Export not supported'')),
      files_get_media = (\<lambda>i. Inl (Rejected ''File not found''))\<rparr>"

text \<open>A request of a signed-in user, and a folder link as the browser shows it.\<close>

definition demo_request :: "string \<Rightarrow> handler_request" where
  "demo_request link =
     \<lparr>googleTokens = JObj [(''access_token'', JStr ''ya29'')],
      githubToken = JStr '' ghp'', repoName = JStr ''mirror '', driveLinkOrId = JStr link\<rparr>"

definition demo_link :: string where
  "demo_link = ''https://drive.google.com/drive/folders/1AbCdEfGhIjKlMnOpQrStUvWxYz_0123-xy?usp=sharing''"

section \<open>The publisher: the order of the calls\<close>

lemma do_fetch_trace:
  "do_fetch fetch req st = (r, st') \<Longrightarrow> trace st' = trace st @ [(req, r)]"
  by (auto simp: do_fetch_def split: prod.splits)

lemma push_ref_trace:
  assumes "push_ref fetch tok owner rn repoJson sha st = (r, st')"
  shows "\<exists>e. trace st' = trace st @ [e] \<and> kind e = KRef \<and> ((\<exists>v. r = Inr v) \<longrightarrow> succeeded e)"
proof -
  let ?req = "\<lparr>token = tok, call = CreateRef owner rn ''refs/heads/main'' sha\<rparr>"
  obtain res st1 where D: "do_fetch fetch ?req st = (res, st1)" by (cases "do_fetch fetch ?req st")
  have 1: "st' = st1"
    using assms by (auto simp: push_ref_def D split: sum.splits if_splits)
  have 2: "(\<exists>v. r = Inr v) \<longrightarrow> succeeded (?req, res)"
    using assms by (auto simp: push_ref_def D succeeded_def split: sum.splits if_splits)
  have 3: "trace st' = trace st @ [(?req, res)]"
    using do_fetch_trace[OF D] 1 by simp
  show ?thesis
    using 2 3 by (intro exI[of _ "(?req, res)"]) (simp add: kind_def)
qed

lemma push_commit_trace:
  assumes "push_commit fetch tok owner rn repoJson sha st = (r, st')"
  shows "\<exists>e t. trace st' = trace st @ e # t \<and> kind e = KCommit
           \<and> (t = [] \<and> (\<forall>v. r \<noteq> Inr v)
              \<or> succeeded e \<and> (\<exists>e'. t = [e'] \<and> kind e' = KRef \<and> ((\<exists>v. r = Inr v) \<longrightarrow> succeeded e')))"
proof -
  let ?req = "\<lparr>token = tok, call = CreateCommit owner rn commit_message sha\<rparr>"
  obtain res st1 where D: "do_fetch fetch ?req st = (res, st1)" by (cases "do_fetch fetch ?req st")
  have T: "trace st1 = trace st @ [(?req, res)]"
    using do_fetch_trace[OF D] by simp
  have C: "kind (?req, res) = KCommit" by (simp add: kind_def)
  consider (stop) e where "st' = st1" "r = Inl e"
    | (go) commitSha where "succeeded (?req, res)"
        "push_ref fetch tok owner rn repoJson commitSha st1 = (r, st')"
    using assms by (auto simp: push_commit_def D succeeded_def split: sum.splits if_splits; metis)
  then show ?thesis
  proof cases
    case stop
    then show ?thesis using T C by (intro exI[of _ "(?req, res)"] exI[of _ "[]"]) simp
  next
    case go
    from push_ref_trace[OF go(2)] obtain e' where
      "trace st' = trace st1 @ [e']" "kind e' = KRef" "(\<exists>v. r = Inr v) \<longrightarrow> succeeded e'"
      by blast
    then show ?thesis using T C go(1)
      by (intro exI[of _ "(?req, res)"] exI[of _ "[e']"]) simp
  qed
qed

lemma push_tree_trace:
  assumes "push_tree fetch tok owner rn repoJson blobs st = (r, st')"
  shows "\<exists>e t. trace st' = trace st @ e # t \<and> kind e = KTree
           \<and> (t = [] \<and> (\<forall>v. r \<noteq> Inr v)
              \<or> succeeded e \<and> (\<exists>e' t'. t = e' # t' \<and> kind e' = KCommit
                   \<and> (t' = [] \<and> (\<forall>v. r \<noteq> Inr v)
                      \<or> succeeded e' \<and> (\<exists>e''. t' = [e''] \<and> kind e'' = KRef
                            \<and> ((\<exists>v. r = Inr v) \<longrightarrow> succeeded e'')))))"
proof -
  let ?req = "\<lparr>token = tok, call = CreateTree owner rn (map treeItem blobs)\<rparr>"
  obtain res st1 where D: "do_fetch fetch ?req st = (res, st1)" by (cases "do_fetch fetch ?req st")
  have T: "trace st1 = trace st @ [(?req, res)]"
    using do_fetch_trace[OF D] by simp
  have C: "kind (?req, res) = KTree" by (simp add: kind_def)
  consider (stop) e where "st' = st1" "r = Inl e"
    | (go) treeSha where "succeeded (?req, res)"
        "push_commit fetch tok owner rn repoJson treeSha st1 = (r, st')"
    using assms by (auto simp: push_tree_def D succeeded_def split: sum.splits if_splits; metis)
  then show ?thesis
  proof cases
    case stop
    then show ?thesis using T C by (intro exI[of _ "(?req, res)"] exI[of _ "[]"]) simp
  next
    case go
    from push_commit_trace[OF go(2)] obtain e' t' where
      "trace st' = trace st1 @ e' # t'" "kind e' = KCommit"
      "t' = [] \<and> (\<forall>v. r \<noteq> Inr v)
         \<or> succeeded e' \<and> (\<exists>e''. t' = [e''] \<and> kind e'' = KRef \<and> ((\<exists>v. r = Inr v) \<longrightarrow> succeeded e''))"
      by blast
    then show ?thesis using T C go(1)
      by (intro exI[of _ "(?req, res)"] exI[of _ "e' # t'"]) simp
  qed
qed

lemma create_blobs_trace:
  "create_blobs fetch tok owner rn fs blobs st = (r, st') \<Longrightarrow>
   \<exists>evs. trace st' = trace st @ evs
      \<and> map fst evs = map (blob_request tok owner rn) (take (length evs) fs)
      \<and> length evs \<le> length fs
      \<and> (\<forall>bs. r = Inr bs \<longrightarrow> length evs = length fs \<and> (\<forall>e \<in> set evs. succeeded e)
                     \<and> map b_path bs = map b_path blobs @ map path fs)"
proof (induction fs arbitrary: blobs st)
  case Nil
  then show ?case by auto
next
  case (Cons f fs)
  let ?req = "blob_request tok owner rn f"
  obtain res st1 where D: "do_fetch fetch ?req st = (res, st1)" by (cases "do_fetch fetch ?req st")
  have T: "trace st1 = trace st @ [(?req, res)]"
    using do_fetch_trace[OF D] by simp
  consider (stop) e where "st' = st1" "r = Inl e"
    | (go) sha where "succeeded (?req, res)"
        "create_blobs fetch tok owner rn fs (blobs @ [\<lparr>b_path = path f, b_sha = sha\<rparr>]) st1 = (r, st')"
    using Cons.prems D
    by (auto simp: blob_request_def succeeded_def Let_def split: sum.splits if_splits)
  then show ?case
  proof cases
    case stop
    then show ?thesis using T by (intro exI[of _ "[(?req, res)]"]) simp
  next
    case go
    from Cons.IH[OF go(2)] obtain evs where E:
      "trace st' = trace st1 @ evs"
      "map fst evs = map (blob_request tok owner rn) (take (length evs) fs)"
      "length evs \<le> length fs"
      "\<forall>bs. r = Inr bs \<longrightarrow> length evs = length fs \<and> (\<forall>e \<in> set evs. succeeded e)
                     \<and> map b_path bs = map b_path (blobs @ [\<lparr>b_path = path f, b_sha = sha\<rparr>]) @ map path fs"
      by blast
    show ?thesis
      using E T go(1)
      by (intro exI[of _ "(?req, res) # evs"]) auto
  qed
qed

lemma blob_request_is_blob:
  "map fst evs = map (blob_request tok owner rn) gs \<Longrightarrow> e \<in> set evs \<Longrightarrow> kind e = KBlob"
proof -
  assume m: "map fst evs = map (blob_request tok owner rn) gs" and e: "e \<in> set evs"
  from e have "fst e \<in> set (map fst evs)" by simp
  with m have "fst e \<in> set (map (blob_request tok owner rn) gs)" by simp
  then obtain g where "fst e = blob_request tok owner rn g" by auto
  then show ?thesis by (simp add: kind_def blob_request_def)
qed

lemma publisher_shape:
  assumes "createGitHubRepoAndPush fetch tok oo rn fs \<lparr>service = s, trace = []\<rparr> = (r, st')"
  shows "\<exists>e0 evs t owner. trace st' = e0 # evs @ t \<and> kind e0 = KRepo
           \<and> map fst evs = map (blob_request tok owner rn) (take (length evs) fs)
           \<and> (t = [] \<and> (\<forall>v. r \<noteq> Inr v)
              \<or> succeeded e0 \<and> length evs = length fs \<and> (\<forall>e \<in> set evs. succeeded e)
                 \<and> tree_tail r t)"
proof -
  let ?st = "\<lparr>service = s, trace = []\<rparr>"
  let ?req = "\<lparr>token = tok, call = CreateRepo rn\<rparr>"
  obtain res st1 where D: "do_fetch fetch ?req ?st = (res, st1)"
    by (cases "do_fetch fetch ?req ?st")
  have T: "trace st1 = [(?req, res)]"
    using do_fetch_trace[OF D] by simp
  have C: "kind (?req, res) = KRepo" by (simp add: kind_def)
  consider (stop) e where "st' = st1" "r = Inl e"
    | (go) owner repoJson rb st2 where "succeeded (?req, res)"
        "create_blobs fetch tok owner rn fs [] st1 = (rb, st2)"
        "case rb of Inl e \<Rightarrow> r = Inl e \<and> st' = st2
           | Inr blobs \<Rightarrow> push_tree fetch tok owner rn repoJson blobs st2 = (r, st')"
    using assms
    by (auto simp: createGitHubRepoAndPush_def D succeeded_def
             split: sum.splits if_splits prod.splits; metis)
  then show ?thesis
  proof cases
    case stop
    then show ?thesis using T C
      by (intro exI[of _ "(?req, res)"] exI[of _ "[]"]) simp
  next
    case go
    from create_blobs_trace[OF go(2)] obtain evs where E:
      "trace st2 = trace st1 @ evs"
      "map fst evs = map (blob_request tok owner rn) (take (length evs) fs)"
      "\<forall>bs. rb = Inr bs \<longrightarrow> length evs = length fs \<and> (\<forall>e \<in> set evs. succeeded e)"
      by blast
    show ?thesis
    proof (cases rb)
      case (Inl e)
      with go(3) have "r = Inl e" "st' = st2" by simp_all
      then show ?thesis using T C E
        by (intro exI[of _ "(?req, res)"] exI[of _ evs] exI[of _ "[]"] exI[of _ owner]) simp
    next
      case (Inr blobs)
      with go(3) have P: "push_tree fetch tok owner rn repoJson blobs st2 = (r, st')" by simp
      from push_tree_trace[OF P] obtain t where
        "trace st' = trace st2 @ t" "tree_tail r t"
        unfolding tree_tail_def by blast
      then show ?thesis using T C E Inr go(1)
        by (intro exI[of _ "(?req, res)"] exI[of _ evs] exI[of _ t] exI[of _ owner]) simp
    qed
  qed
qed

lemma nth_in_middle:
  assumes "tr = xs @ y # ys" "\<forall>x \<in> set xs. \<not> P x" "\<forall>x \<in> set ys. \<not> P x"
    "i < length tr" "P (tr ! i)"
  shows "i = length xs"
proof (rule ccontr)
  assume ne: "i \<noteq> length xs"
  show False
  proof (cases "i < length xs")
    case True
    then have "tr ! i \<in> set xs" using assms(1) by (simp add: nth_append)
    then show False using assms(2,5) by blast
  next
    case False
    with ne have gt: "length xs < i" by simp
    then have "tr ! i = ys ! (i - length xs - 1)"
      using assms(1) by (simp add: nth_append nth_Cons')
    moreover have "i - length xs - 1 < length ys" using assms(1,4) gt by auto
    ultimately have "tr ! i \<in> set ys" by simp
    then show False using assms(3,5) by blast
  qed
qed

text \<open>
  Claim C1. In every run of the publisher, started on an empty trace: when the call at
  position \<open>i\<close> of the trace is the tree request, the blob requests before it are exactly
  the blob requests of the files, one for each file and in their order, each of them has
  returned successfully, and no blob request comes at or after position \<open>i\<close>; when it is
  the commit request, a tree request that returned successfully comes before it; when it
  is the reference request, a commit request that returned successfully comes before it.
\<close>

theorem stage_ordering:
  assumes run: "createGitHubRepoAndPush fetch tok oo rn fs \<lparr>service = s, trace = []\<rparr> = (r, st')"
    and i: "i < length (trace st')"
  shows "(kind (trace st' ! i) = KTree \<longrightarrow>
            (\<exists>owner. map fst (filter (\<lambda>e. kind e = KBlob) (take i (trace st')))
                        = map (blob_request tok owner rn) fs)
            \<and> (\<forall>e \<in> set (filter (\<lambda>e. kind e = KBlob) (take i (trace st'))). succeeded e)
            \<and> (\<forall>e \<in> set (drop i (trace st')). \<not> kind e = KBlob))
       \<and> (kind (trace st' ! i) = KCommit \<longrightarrow>
            (\<exists>j<i. kind (trace st' ! j) = KTree \<and> succeeded (trace st' ! j)))
       \<and> (kind (trace st' ! i) = KRef \<longrightarrow>
            (\<exists>j<i. kind (trace st' ! j) = KCommit \<and> succeeded (trace st' ! j)))"
proof -
  from publisher_shape[OF run] obtain e0 evs t owner where S:
    "trace st' = e0 # evs @ t" "kind e0 = KRepo"
    "map fst evs = map (blob_request tok owner rn) (take (length evs) fs)"
    "t = [] \<and> (\<forall>v. r \<noteq> Inr v)
       \<or> succeeded e0 \<and> length evs = length fs \<and> (\<forall>e \<in> set evs. succeeded e) \<and> tree_tail r t"
    by blast
  let ?tr = "trace st'"
  have B: "\<forall>e \<in> set evs. kind e = KBlob"
    using blob_request_is_blob[OF S(3)] by blast
  have pre: "\<forall>e \<in> set (e0 # evs). \<not> kind e = KTree \<and> \<not> kind e = KCommit \<and> \<not> kind e = KRef"
    using B S(2) by auto
  show ?thesis
  proof (cases "t = []")
    case True
    then have "?tr ! i \<in> set (e0 # evs)" using S(1) i by (metis append_Nil2 nth_mem)
    then show ?thesis using pre by blast
  next
    case False
    with S(4) have F: "succeeded e0" "length evs = length fs" "\<forall>e \<in> set evs. succeeded e"
      "tree_tail r t" by auto
    from F(4) obtain e1 t1 where T1: "t = e1 # t1" "kind e1 = KTree"
      "t1 = [] \<and> (\<forall>v. r \<noteq> Inr v)
         \<or> succeeded e1 \<and> (\<exists>e2 t2. t1 = e2 # t2 \<and> kind e2 = KCommit
              \<and> (t2 = [] \<and> (\<forall>v. r \<noteq> Inr v)
                 \<or> succeeded e2 \<and> (\<exists>e3. t2 = [e3] \<and> kind e3 = KRef
                       \<and> ((\<exists>v. r = Inr v) \<longrightarrow> succeeded e3))))"
      unfolding tree_tail_def by blast
    have t1_kinds: "\<forall>e \<in> set t1. \<not> kind e = KTree \<and> \<not> kind e = KBlob"
      using T1(3) by auto
    have tr: "?tr = (e0 # evs) @ e1 # t1" using S(1) T1(1) by simp
    have tree: "(\<exists>owner. map fst (filter (\<lambda>e. kind e = KBlob) (take i ?tr))
                        = map (blob_request tok owner rn) fs)
            \<and> (\<forall>e \<in> set (filter (\<lambda>e. kind e = KBlob) (take i ?tr)). succeeded e)
            \<and> (\<forall>e \<in> set (drop i ?tr). \<not> kind e = KBlob)" if "kind (?tr ! i) = KTree"
    proof -
      have "i = length (e0 # evs)"
        using nth_in_middle[OF tr _ _ i, of "\<lambda>e. kind e = KTree"] pre t1_kinds that by blast
      then have tk: "take i ?tr = e0 # evs" and dr: "drop i ?tr = e1 # t1"
        using tr by simp_all
      have nb: "\<not> kind e0 = KBlob" using S(2) by simp
      have fl: "filter (\<lambda>e. kind e = KBlob) (take i ?tr) = evs"
        using tk nb B by (simp add: filter_id_conv)
      have "map fst evs = map (blob_request tok owner rn) fs" using S(3) F(2) by simp
      moreover have "\<forall>e \<in> set (drop i ?tr). \<not> kind e = KBlob"
        using dr t1_kinds T1(2) by auto
      ultimately show ?thesis
        using fl F(3) by auto
    qed
    have commit: "\<exists>j<i. kind (?tr ! j) = KTree \<and> succeeded (?tr ! j)" if c: "kind (?tr ! i) = KCommit"
    proof -
      have mem: "?tr ! i \<in> set ?tr" using i by simp
      have "t1 \<noteq> []"
      proof
        assume "t1 = []"
        then have "set ?tr = set (e0 # evs) \<union> {e1}" using tr by auto
        with mem have "?tr ! i \<in> set (e0 # evs) \<or> ?tr ! i = e1" by blast
        then show False using pre c T1(2) by auto
      qed
      with T1(3) obtain e2 t2 where T2: "succeeded e1" "t1 = e2 # t2" "kind e2 = KCommit"
        "t2 = [] \<or> (\<exists>e3. t2 = [e3] \<and> kind e3 = KRef)"
        by blast
      have tr2: "?tr = (e0 # evs @ [e1]) @ e2 # t2" using tr T2(2) by simp
      have x: "\<forall>x \<in> set (e0 # evs @ [e1]). \<not> kind x = KCommit"
        using pre T1(2) by auto
      have y: "\<forall>x \<in> set t2. \<not> kind x = KCommit"
        using T2(4) by auto
      have "i = length (e0 # evs @ [e1])"
        by (rule nth_in_middle[OF tr2 x y i c])
      then have "length (e0 # evs) < i" by simp
      moreover have "?tr ! length (e0 # evs) = e1" using tr by (metis nth_append_length)
      ultimately show ?thesis using T1(2) T2(1) by blast
    qed
    have ref: "\<exists>j<i. kind (?tr ! j) = KCommit \<and> succeeded (?tr ! j)" if c: "kind (?tr ! i) = KRef"
    proof -
      have mem: "?tr ! i \<in> set ?tr" using i by simp
      have "t1 \<noteq> []"
      proof
        assume "t1 = []"
        then have "set ?tr = set (e0 # evs) \<union> {e1}" using tr by auto
        with mem have "?tr ! i \<in> set (e0 # evs) \<or> ?tr ! i = e1" by blast
        then show False using pre c T1(2) by auto
      qed
      with T1(3) obtain e2 t2 where T2: "succeeded e1" "t1 = e2 # t2" "kind e2 = KCommit"
        "t2 = [] \<or> succeeded e2 \<and> (\<exists>e3. t2 = [e3] \<and> kind e3 = KRef)"
        by blast
      have tr2: "?tr = (e0 # evs @ [e1]) @ e2 # t2" using tr T2(2) by simp
      have x: "\<forall>x \<in> set (e0 # evs @ [e1, e2]). \<not> kind x = KRef"
        using pre T1(2) T2(3) by auto
      have "t2 \<noteq> []"
      proof
        assume "t2 = []"
        then have "set ?tr = set (e0 # evs @ [e1, e2])" using tr2 by simp
        with mem show False using x c by blast
      qed
      with T2(4) obtain e3 where T3: "succeeded e2" "t2 = [e3]" "kind e3 = KRef" by blast
      have tr3: "?tr = (e0 # evs @ [e1, e2]) @ e3 # []" using tr2 T3(2) by simp
      have "i = length (e0 # evs @ [e1, e2])"
        by (rule nth_in_middle[OF tr3 x _ i c]) simp
      then have "length (e0 # evs @ [e1]) < i" by simp
      moreover have "?tr ! length (e0 # evs @ [e1]) = e2" using tr2 by (metis nth_append_length)
      ultimately show ?thesis using T2(3) T3(1) by blast
    qed
    show ?thesis
      using tree commit ref by blast
  qed
qed

text \<open>
  Claim C2. If a blob request of the run did not return successfully (the fetch rejected
  or the response was not ok), the publisher ends with an error and the trace holds no
  tree request.
\<close>

theorem blob_failure_aborts:
  assumes run: "createGitHubRepoAndPush fetch tok oo rn fs \<lparr>service = s, trace = []\<rparr> = (r, st')"
    and e: "e \<in> set (trace st')" "kind e = KBlob" "\<not> succeeded e"
  shows "(\<exists>err. r = Inl err) \<and> (\<forall>e' \<in> set (trace st'). \<not> kind e' = KTree)"
proof -
  from publisher_shape[OF run] obtain e0 evs t owner where S:
    "trace st' = e0 # evs @ t" "kind e0 = KRepo"
    "map fst evs = map (blob_request tok owner rn) (take (length evs) fs)"
    "t = [] \<and> (\<forall>v. r \<noteq> Inr v)
       \<or> succeeded e0 \<and> length evs = length fs \<and> (\<forall>e \<in> set evs. succeeded e) \<and> tree_tail r t"
    by blast
  have B: "\<forall>e \<in> set evs. kind e = KBlob"
    using blob_request_is_blob[OF S(3)] by blast
  have t_kinds: "\<forall>x \<in> set t. \<not> kind x = KBlob" if "tree_tail r t"
    using that unfolding tree_tail_def by auto
  have "t = []"
  proof (rule ccontr)
    assume "t \<noteq> []"
    with S(4) have "\<forall>e \<in> set evs. succeeded e" "tree_tail r t" by auto
    moreover have "e \<in> set evs"
      using e(1,2) S(1,2) t_kinds[OF calculation(2)] by auto
    ultimately show False using e(3) by blast
  qed
  with S(4) have "\<forall>v. r \<noteq> Inr v" by (auto simp: tree_tail_def)
  then have "\<exists>err. r = Inl err" by (cases r) auto
  moreover have "\<forall>e' \<in> set (trace st'). \<not> kind e' = KTree"
    using S(1,2) B \<open>t = []\<close> by auto
  ultimately show ?thesis by blast
qed

subsection \<open>The two concrete runs\<close>

lemmas publisher_defs = createGitHubRepoAndPush_def push_tree_def push_commit_def push_ref_def
  do_fetch_def throw_failed_def treeItem_def

lemma demo_run_value:
  "demo_run =
     (Inr (JObj [(''html_url'', JStr ''https://github.com/octo/mirror'')]),
      \<lparr>service = 6,
       trace =
         [(\<lparr>token = ''ghp'', call = CreateRepo ''mirror''\<rparr>, demo_ok (demo_repo_json ''mirror'')),
          (\<lparr>token = ''ghp'', call = CreateBlob (JStr ''octo'') ''mirror'' ''YSxi''\<rparr>,
           demo_ok (JObj [(''sha'', JStr ''aa'')])),
          (\<lparr>token = ''ghp'', call = CreateBlob (JStr ''octo'') ''mirror'' ''iVBORw==''\<rparr>,
           demo_ok (JObj [(''sha'', JStr ''aaa'')])),
          (\<lparr>token = ''ghp'',
            call = CreateTree (JStr ''octo'') ''mirror''
                     [\<lparr>ti_path = ''proj/docs/budget'', ti_mode = ''100644'', ti_type = ''blob'',
                       ti_sha = JStr ''aa''\<rparr>,
                      \<lparr>ti_path = ''proj/logo.png'', ti_mode = ''100644'', ti_type = ''blob'',
                       ti_sha = JStr ''aaa''\<rparr>]\<rparr>,
           demo_ok (JObj [(''sha'', JStr ''aaaa'')])),
          (\<lparr>token = ''ghp'',
            call = CreateCommit (JStr ''octo'') ''mirror'' commit_message (JStr ''aaaa'')\<rparr>,
           demo_ok (JObj [(''sha'', JStr ''aaaaa'')])),
          (\<lparr>token = ''ghp'',
            call = CreateRef (JStr ''octo'') ''mirror'' ''refs/heads/main'' (JStr ''aaaaa'')\<rparr>,
           demo_ok (JObj [(''sha'', JStr ''aaaaaa'')]))]\<rparr>)"
  by (simp add: demo_run_def demo_fetch_def demo_files_def demo_repo_json_def publisher_defs
        demo_ok_def b64_digit_def)

lemma demo_run_blob_fails_value:
  "demo_run_blob_fails =
     (Inl (Error ''Failed to create blob: Bad credentials''),
      \<lparr>service = 3,
       trace =
         [(\<lparr>token = ''ghp'', call = CreateRepo ''mirror''\<rparr>, demo_ok (demo_repo_json ''mirror'')),
          (\<lparr>token = ''ghp'', call = CreateBlob (JStr ''octo'') ''mirror'' ''YSxi''\<rparr>,
           demo_ok (JObj [(''sha'', JStr ''aa'')])),
          (\<lparr>token = ''ghp'', call = CreateBlob (JStr ''octo'') ''mirror'' ''iVBORw==''\<rparr>,
           Inr \<lparr>ok = False, text_body = Inr ''Bad credentials'', json_body = Inr JNull\<rparr>)]\<rparr>)"
  by (simp add: demo_run_blob_fails_def demo_fetch_blob_fails_def demo_fetch_def demo_files_def
        demo_repo_json_def publisher_defs demo_ok_def b64_digit_def)

theorem stage_ordering_witness:
  "(3 < length (trace (snd demo_run)) \<and> kind (trace (snd demo_run) ! 3) = KTree
      \<and> map fst (filter (\<lambda>e. kind e = KBlob) (take 3 (trace (snd demo_run))))
           = map (blob_request ''ghp'' (JStr ''octo'') ''mirror'') demo_files
      \<and> list_all succeeded (filter (\<lambda>e. kind e = KBlob) (take 3 (trace (snd demo_run))))
      \<and> list_all (\<lambda>e. kind e \<noteq> KBlob) (drop 3 (trace (snd demo_run))))
   \<and> (4 < length (trace (snd demo_run)) \<and> kind (trace (snd demo_run) ! 4) = KCommit
      \<and> (\<exists>j<4. kind (trace (snd demo_run) ! j) = KTree \<and> succeeded (trace (snd demo_run) ! j)))
   \<and> (5 < length (trace (snd demo_run)) \<and> kind (trace (snd demo_run) ! 5) = KRef
      \<and> (\<exists>j<5. kind (trace (snd demo_run) ! j) = KCommit \<and> succeeded (trace (snd demo_run) ! j)))"
proof -
  have run: "createGitHubRepoAndPush demo_fetch ''ghp'' JNull ''mirror'' demo_files
               \<lparr>service = 0, trace = []\<rparr> = (fst demo_run, snd demo_run)"
    by (simp add: demo_run_def)
  have len: "length (trace (snd demo_run)) = 6" by (simp add: demo_run_value)
  have k: "kind (trace (snd demo_run) ! 3) = KTree" "kind (trace (snd demo_run) ! 4) = KCommit"
    "kind (trace (snd demo_run) ! 5) = KRef"
    by (simp_all add: demo_run_value kind_def)
  have b: "map fst (filter (\<lambda>e. kind e = KBlob) (take 3 (trace (snd demo_run))))
           = map (blob_request ''ghp'' (JStr ''octo'') ''mirror'') demo_files"
    by (simp add: demo_run_value kind_def blob_request_def demo_files_def b64_digit_def)
  show ?thesis
    using stage_ordering[OF run, of 3] stage_ordering[OF run, of 4] stage_ordering[OF run, of 5]
      len k b
    by (simp add: list_all_iff)
qed

theorem blob_failure_aborts_witness:
  "(\<lparr>token = ''ghp'', call = CreateBlob (JStr ''octo'') ''mirror'' ''iVBORw==''\<rparr>,
     Inr \<lparr>ok = False, text_body = Inr ''Bad credentials'', json_body = Inr JNull\<rparr>)
      \<in> set (trace (snd demo_run_blob_fails))
   \<and> fst demo_run_blob_fails = Inl (Error ''Failed to create blob: Bad credentials'')
   \<and> list_all (\<lambda>e. kind e \<noteq> KTree) (trace (snd demo_run_blob_fails))"
proof -
  let ?e = "(\<lparr>token = ''ghp'', call = CreateBlob (JStr ''octo'') ''mirror'' ''iVBORw==''\<rparr>,
     Inr \<lparr>ok = False, text_body = Inr ''Bad credentials'', json_body = Inr JNull\<rparr>)"
  have run: "createGitHubRepoAndPush demo_fetch_blob_fails ''ghp'' JNull ''mirror'' demo_files
               \<lparr>service = 0, trace = []\<rparr> = (fst demo_run_blob_fails, snd demo_run_blob_fails)"
    by (simp add: demo_run_blob_fails_def)
  have m: "?e \<in> set (trace (snd demo_run_blob_fails))"
    by (simp add: demo_run_blob_fails_value)
  have kb: "kind ?e = KBlob" by (simp add: kind_def)
  have ns: "\<not> succeeded ?e" by (simp add: succeeded_def)
  show ?thesis
    using blob_failure_aborts[OF run m kb ns] m
    by (simp add: demo_run_blob_fails_value list_all_iff)
qed

section \<open>The publisher: the value returned\<close>

lemma push_ref_result:
  "push_ref fetch tok owner rn repoJson sha st = (Inr v, st') \<Longrightarrow>
   \<exists>url. js_get repoJson ''html_url'' = Inr url \<and> v = JObj [(''html_url'', url)]"
  by (auto simp: push_ref_def split: prod.splits sum.splits if_splits)

lemma push_commit_result:
  "push_commit fetch tok owner rn repoJson sha st = (Inr v, st') \<Longrightarrow>
   \<exists>url. js_get repoJson ''html_url'' = Inr url \<and> v = JObj [(''html_url'', url)]"
  by (auto simp: push_commit_def split: prod.splits sum.splits if_splits dest: push_ref_result)

lemma push_tree_result:
  "push_tree fetch tok owner rn repoJson blobs st = (Inr v, st') \<Longrightarrow>
   \<exists>url. js_get repoJson ''html_url'' = Inr url \<and> v = JObj [(''html_url'', url)]"
  by (auto simp: push_tree_def split: prod.splits sum.splits if_splits dest: push_commit_result)

text \<open>
  Claim C5, as amended. On success the publisher returns the object
  \<^verbatim>\<open>{ html_url: repoJson.html_url }\<close>: its one property is the \<^verbatim>\<open>html_url\<close>
  of the body of the repository-creation response, and it has no
  \<^verbatim>\<open>filesPublished\<close> property.
\<close>

theorem publish_returns_html_url:
  assumes "createGitHubRepoAndPush fetch tok oo rn fs \<lparr>service = s, trace = []\<rparr> = (Inr v, st')"
  shows "\<exists>createRes s1 repoJson url.
           fetch s \<lparr>token = tok, call = CreateRepo rn\<rparr> = (Inr createRes, s1)
           \<and> json_body createRes = Inr repoJson
           \<and> js_get repoJson ''html_url'' = Inr url
           \<and> v = JObj [(''html_url'', url)]
           \<and> js_get v ''filesPublished'' = Inr JUndefined"
proof -
  obtain res s1 where F: "fetch s \<lparr>token = tok, call = CreateRepo rn\<rparr> = (res, s1)"
    by (cases "fetch s \<lparr>token = tok, call = CreateRepo rn\<rparr>")
  from assms F obtain createRes repoJson owner blobs st2 where
    R: "res = Inr createRes" "json_body createRes = Inr repoJson"
       "push_tree fetch tok owner rn repoJson blobs st2 = (Inr v, st')"
    by (auto simp: createGitHubRepoAndPush_def do_fetch_def split: prod.splits sum.splits if_splits)
  from push_tree_result[OF R(3)] obtain url where
    U: "js_get repoJson ''html_url'' = Inr url" "v = JObj [(''html_url'', url)]" by blast
  have "js_get v ''filesPublished'' = Inr JUndefined" using U(2) by simp
  then show ?thesis using F R(1,2) U by blast
qed

theorem publish_returns_html_url_witness:
  "fst demo_run = Inr (JObj [(''html_url'', JStr ''https://github.com/octo/mirror'')])
   \<and> js_get (demo_repo_json ''mirror'') ''html_url'' = Inr (JStr ''https://github.com/octo/mirror'')
   \<and> js_get (JObj [(''html_url'', JStr ''https://github.com/octo/mirror'')]) ''filesPublished''
        = Inr JUndefined"
proof -
  have run: "createGitHubRepoAndPush demo_fetch ''ghp'' JNull ''mirror'' demo_files
               \<lparr>service = 0, trace = []\<rparr>
             = (Inr (JObj [(''html_url'', JStr ''https://github.com/octo/mirror'')]), snd demo_run)"
    using demo_run_value by (simp add: demo_run_def)
  show ?thesis
    using publish_returns_html_url[OF run]
    by (simp add: demo_run_value demo_repo_json_def)
qed

text \<open>
  Claim C5 as stated fails: the run on the two files succeeds, and the value returned has
  no \<^verbatim>\<open>filesPublished\<close> property equal to 2.
\<close>

theorem publish_result_counterexample:
  "fst demo_run = Inr (JObj [(''html_url'', JStr ''https://github.com/octo/mirror'')])
   \<and> length demo_files = 2
   \<and> js_get (JObj [(''html_url'', JStr ''https://github.com/octo/mirror'')]) ''filesPublished''
        \<noteq> Inr (JNum 2)"
  by (simp add: demo_run_value demo_files_def)

section \<open>The collector returns what the specification prescribes\<close>

lemma download_fst:
  "fst (downloadFileAsBuffer d i m st) = fst (downloadFileAsBuffer d i m st0)"
  by (simp add: downloadFileAsBuffer_def Let_def split: option.splits)

lemma download_results:
  "results (snd (downloadFileAsBuffer d i m st)) = results st"
  by (simp add: downloadFileAsBuffer_def Let_def record_call_def split: option.splits)

lemma walkFolder_files_Cons:
  "walkFolder_files n d p (f # fs) st =
     (case walkFolder_files n d p [f] st of
        (OutOfFuel, st1) \<Rightarrow> (OutOfFuel, st1)
      | (Thrown e, st1) \<Rightarrow> (Thrown e, st1)
      | (Returned u, st1) \<Rightarrow> walkFolder_files n d p fs st1)"
  by (simp split: outcome.splits sum.splits prod.splits)

lemma emits_list:
  "list_all2 (emits d) fs ts \<Longrightarrow>
   \<exists>n0. \<forall>n\<ge>n0. \<forall>p st. \<exists>st'. walkFolder_files n d p fs st = (Returned (), st')
          \<and> results st' = results st @ concat (map (flatten p) ts)"
proof (induction fs ts rule: list_all2_induct)
  case Nil
  then show ?case by simp
next
  case (Cons f fs t ts)
  from Cons.hyps(1) obtain n1 where n1:
    "\<And>n p st. n \<ge> n1 \<Longrightarrow> \<exists>st'. walkFolder_files n d p [f] st = (Returned (), st')
          \<and> results st' = results st @ flatten p t"
    unfolding emits_def by blast
  from Cons.IH obtain n2 where n2:
    "\<And>n p st. n \<ge> n2 \<Longrightarrow> \<exists>st'. walkFolder_files n d p fs st = (Returned (), st')
          \<and> results st' = results st @ concat (map (flatten p) ts)"
    by blast
  show ?case
  proof (intro exI[of _ "max n1 n2"] allI impI)
    fix n p st assume n: "max n1 n2 \<le> n"
    then have "n \<ge> n1" "n \<ge> n2" by simp_all
    from n1[OF this(1), of p st] obtain st1 where
      1: "walkFolder_files n d p [f] st = (Returned (), st1)" "results st1 = results st @ flatten p t"
      by blast
    from n2[OF \<open>n \<ge> n2\<close>, of p st1] obtain st2 where
      2: "walkFolder_files n d p fs st1 = (Returned (), st2)"
         "results st2 = results st1 @ concat (map (flatten p) ts)"
      by blast
    have "walkFolder_files n d p (f # fs) st = (Returned (), st2)"
      by (simp only: walkFolder_files_Cons[of n d p f fs st] 1 2 outcome.case prod.case)
    then show "\<exists>st'. walkFolder_files n d p (f # fs) st = (Returned (), st')
          \<and> results st' = results st @ concat (map (flatten p) (t # ts))"
      using 1 2 by simp
  qed
qed

lemma emits_pages:
  "listing d folderId tok pages \<Longrightarrow> list_all2 (emits d) (concat pages) ts \<Longrightarrow>
   \<exists>n0. \<forall>n\<ge>n0. \<forall>p st. \<exists>st'. walkFolder_pages n d folderId p tok st = (Returned (), st')
          \<and> results st' = results st @ concat (map (flatten p) ts)"
proof (induction arbitrary: ts rule: listing.induct)
  case (last_page tok page)
  then have "list_all2 (emits d) (page_files page) ts" by simp
  from emits_list[OF this] obtain n1 where n1:
    "\<And>n p st. n \<ge> n1 \<Longrightarrow> \<exists>st'. walkFolder_files n d p (page_files page) st = (Returned (), st')
          \<and> results st' = results st @ concat (map (flatten p) ts)"
    by blast
  show ?case
  proof (intro exI[of _ "Suc n1"] allI impI)
    fix n p st assume "Suc n1 \<le> n"
    then obtain m where m: "n = Suc m" "m \<ge> n1" by (cases n) auto
    let ?st1 = "record_call (FilesList (children_query folderId) tok)
                  (files_list d (children_query folderId) tok) st"
    from n1[OF m(2), of p ?st1] obtain st' where
      1: "walkFolder_files m d p (page_files page) ?st1 = (Returned (), st')"
         "results st' = results ?st1 @ concat (map (flatten p) ts)"
      by blast
    have "walkFolder_pages n d folderId p tok st = (Returned (), st')"
      using last_page.hyps 1(1)
      by (auto simp: m(1) Let_def page_files_def next_token_def split: option.splits if_splits)
    moreover have "results ?st1 = results st" by (simp add: record_call_def)
    ultimately show "\<exists>st'. walkFolder_pages n d folderId p tok st = (Returned (), st')
          \<and> results st' = results st @ concat (map (flatten p) ts)"
      using 1(2) by simp
  qed
next
  case (next_page tok page t pages)
  from next_page.prems obtain ts1 ts2 where ts:
    "ts = ts1 @ ts2" "list_all2 (emits d) (page_files page) ts1"
    "list_all2 (emits d) (concat pages) ts2"
    by (auto simp: list_all2_append1)
  from emits_list[OF ts(2)] obtain n1 where n1:
    "\<And>n p st. n \<ge> n1 \<Longrightarrow> \<exists>st'. walkFolder_files n d p (page_files page) st = (Returned (), st')
          \<and> results st' = results st @ concat (map (flatten p) ts1)"
    by blast
  from next_page.IH[OF ts(3)] obtain n2 where n2:
    "\<And>n p st. n \<ge> n2 \<Longrightarrow> \<exists>st'. walkFolder_pages n d folderId p (Some t) st = (Returned (), st')
          \<and> results st' = results st @ concat (map (flatten p) ts2)"
    by blast
  show ?case
  proof (intro exI[of _ "Suc (max n1 n2)"] allI impI)
    fix n p st assume "Suc (max n1 n2) \<le> n"
    then obtain m where m: "n = Suc m" "m \<ge> n1" "m \<ge> n2" by (cases n) auto
    let ?st1 = "record_call (FilesList (children_query folderId) tok)
                  (files_list d (children_query folderId) tok) st"
    from n1[OF m(2), of p ?st1] obtain st1 where
      1: "walkFolder_files m d p (page_files page) ?st1 = (Returned (), st1)"
         "results st1 = results ?st1 @ concat (map (flatten p) ts1)"
      by blast
    from n2[OF m(3), of p st1] obtain st2 where
      2: "walkFolder_pages m d folderId p (Some t) st1 = (Returned (), st2)"
         "results st2 = results st1 @ concat (map (flatten p) ts2)"
      by blast
    have "walkFolder_pages n d folderId p tok st = (Returned (), st2)"
      using next_page.hyps(1,2) 1(1) 2(1)
      by (auto simp: m(1) Let_def page_files_def next_token_def split: option.splits if_splits)
    moreover have "results ?st1 = results st" by (simp add: record_call_def)
    ultimately show "\<exists>st'. walkFolder_pages n d folderId p tok st = (Returned (), st')
          \<and> results st' = results st @ concat (map (flatten p) ts)"
      using 1(2) 2(2) ts(1) by simp
  qed
qed

lemma serves_emits: "serves d f t \<Longrightarrow> emits d f t"
proof (induction rule: serves.induct)
  case (leaf f buf)
  show ?case
    unfolding emits_def
  proof (intro exI[of _ 0] allI impI)
    fix n p st
    obtain r st1 where D: "downloadFileAsBuffer d (f_id f) (f_mimeType f) st = (r, st1)"
      by (cases "downloadFileAsBuffer d (f_id f) (f_mimeType f) st")
    have "r = Inr buf"
      using leaf(2) download_fst[of d "f_id f" "f_mimeType f" st "\<lparr>results = [], calls = []\<rparr>"] D
      by (simp add: leaf_content_def)
    moreover have "results st1 = results st"
      using download_results[of d "f_id f" "f_mimeType f" st] D by simp
    ultimately show "\<exists>st'. walkFolder_files n d p [f] st = (Returned (), st')
          \<and> results st' = results st @ flatten p (Leaf (f_name f) buf)"
      using leaf(1) D by simp
  qed
next
  case (container f pages ts)
  from container(3) have "list_all2 (emits d) (concat pages) ts"
    by (rule list_all2_mono) simp
  from emits_pages[OF container(2) this] obtain n0 where n0:
    "\<And>n p st. n \<ge> n0 \<Longrightarrow> \<exists>st'. walkFolder_pages n d (f_id f) p None st = (Returned (), st')
          \<and> results st' = results st @ concat (map (flatten p) ts)"
    by blast
  show ?case
    unfolding emits_def
  proof (intro exI[of _ n0] allI impI)
    fix n p st assume "n0 \<le> n"
    from n0[OF this, of "p @ f_name f @ ''/''" st] obtain st' where
      "walkFolder_pages n d (f_id f) (p @ f_name f @ ''/'') None st = (Returned (), st')"
      "results st' = results st @ concat (map (flatten (p @ f_name f @ ''/'')) ts)"
      by blast
    then show "\<exists>st'. walkFolder_files n d p [f] st = (Returned (), st')
          \<and> results st' = results st @ flatten p (Container (f_name f) ts)"
      using container(1) by simp
  qed
qed

subsection \<open>Every run that returns has walked a tree\<close>

lemma walkFolder_pages_Suc_ok:
  assumes "files_list d (children_query fid) tok = Inr page"
    and "walkFolder_files n d p (page_files page)
           (record_call (FilesList (children_query fid) tok) (Inr page) st) = (Returned u, st2)"
  shows "walkFolder_pages (Suc n) d fid p tok st =
           (case next_token page of
              None \<Rightarrow> (Returned (), st2)
            | Some t \<Rightarrow> walkFolder_pages n d fid p (Some t) st2)"
  using assms by (simp add: Let_def page_files_def next_token_def split: option.splits)

lemma files_sound:
  assumes H: "\<And>fid p st st'. walkFolder_pages n d fid p None st = (Returned (), st') \<Longrightarrow>
      \<exists>pages ts. listing d fid None pages \<and> list_all2 (serves d) (concat pages) ts
          \<and> results st' = results st @ concat (map (flatten p) ts)"
  shows "walkFolder_files n d p fs st = (Returned (), st') \<Longrightarrow>
         \<exists>ts. list_all2 (serves d) fs ts \<and> results st' = results st @ concat (map (flatten p) ts)"
proof (induction fs arbitrary: st)
  case Nil
  then show ?case by simp
next
  case (Cons f fs)
  show ?case
  proof (cases "f_mimeType f = ''application/vnd.google-apps.folder''")
    case True
    obtain r1 st1 where W: "walkFolder_pages n d (f_id f) (p @ f_name f @ ''/'') None st = (r1, st1)"
      by (cases "walkFolder_pages n d (f_id f) (p @ f_name f @ ''/'') None st")
    have r1: "r1 = Returned ()" and rest: "walkFolder_files n d p fs st1 = (Returned (), st')"
      using Cons.prems True W by (auto split: outcome.splits)
    from H[OF W[unfolded r1]] obtain pages ts where
      P: "listing d (f_id f) None pages" "list_all2 (serves d) (concat pages) ts"
         "results st1 = results st @ concat (map (flatten (p @ f_name f @ ''/'')) ts)"
      by blast
    have S: "serves d f (Container (f_name f) ts)"
      using True P(1,2) by (rule serves.container)
    from Cons.IH[OF rest] obtain ts' where
      "list_all2 (serves d) fs ts'" "results st' = results st1 @ concat (map (flatten p) ts')"
      by blast
    then show ?thesis using S P(3)
      by (intro exI[of _ "Container (f_name f) ts # ts'"]) simp
  next
    case False
    obtain r1 st1 where D: "downloadFileAsBuffer d (f_id f) (f_mimeType f) st = (r1, st1)"
      by (cases "downloadFileAsBuffer d (f_id f) (f_mimeType f) st")
    then obtain buf where r1: "r1 = Inr buf"
      and rest: "walkFolder_files n d p fs
                   (st1\<lparr>results := results st1 @ [\<lparr>path = p @ f_name f, buffer = buf\<rparr>]\<rparr>)
                 = (Returned (), st')"
      using Cons.prems False by (auto split: sum.splits)
    have "leaf_content d f = Inr buf"
      using D r1 download_fst[of d "f_id f" "f_mimeType f" "\<lparr>results = [], calls = []\<rparr>" st]
      by (simp add: leaf_content_def)
    with False have S: "serves d f (Leaf (f_name f) buf)" by (rule serves.leaf)
    have R: "results st1 = results st"
      using download_results[of d "f_id f" "f_mimeType f" st] D by simp
    from Cons.IH[OF rest] obtain ts' where
      "list_all2 (serves d) fs ts'"
      "results st' = (results st1 @ [\<lparr>path = p @ f_name f, buffer = buf\<rparr>]) @ concat (map (flatten p) ts')"
      by auto
    then show ?thesis using S R
      by (intro exI[of _ "Leaf (f_name f) buf # ts'"]) simp
  qed
qed

lemma pages_sound:
  "walkFolder_pages n d fid p tok st = (Returned (), st') \<Longrightarrow>
      \<exists>pages ts. listing d fid tok pages \<and> list_all2 (serves d) (concat pages) ts
          \<and> results st' = results st @ concat (map (flatten p) ts)"
proof (induction n arbitrary: tok st p fid st')
  case 0
  then show ?case by simp
next
  case (Suc n)
  let ?q = "files_list d (children_query fid) tok"
  let ?st1 = "record_call (FilesList (children_query fid) tok) ?q st"
  obtain page where Q: "?q = Inr page"
    using Suc.prems by (cases ?q) (auto simp: Let_def)
  obtain r2 st2 where F: "walkFolder_files n d p (page_files page) ?st1 = (r2, st2)"
    by (cases "walkFolder_files n d p (page_files page) ?st1")
  have r2: "r2 = Returned ()"
    using Suc.prems Q F by (auto simp: Let_def page_files_def split: outcome.splits)
  from files_sound[OF Suc.IH F[unfolded r2]] obtain ts1 where
    T1: "list_all2 (serves d) (page_files page) ts1"
        "results st2 = results ?st1 @ concat (map (flatten p) ts1)"
    by blast
  have R1: "results ?st1 = results st" by (simp add: record_call_def)
  have F': "walkFolder_files n d p (page_files page)
              (record_call (FilesList (children_query fid) tok) (Inr page) st) = (Returned (), st2)"
    using F r2 Q by simp
  have step: "(case next_token page of
              None \<Rightarrow> (Returned (), st2)
            | Some t \<Rightarrow> walkFolder_pages n d fid p (Some t) st2) = (Returned (), st')"
    using Suc.prems unfolding walkFolder_pages_Suc_ok[OF Q F'] .
  show ?case
  proof (cases "next_token page")
    case None
    then have "st' = st2" using step by simp
    moreover have "listing d fid tok [page_files page]"
      using Q None by (rule listing.last_page)
    ultimately show ?thesis using T1 R1
      by (intro exI[of _ "[page_files page]"] exI[of _ ts1]) simp
  next
    case (Some t)
    then have "walkFolder_pages n d fid p (Some t) st2 = (Returned (), st')" using step by simp
    from Suc.IH[OF this] obtain pages ts2 where
      P: "listing d fid (Some t) pages" "list_all2 (serves d) (concat pages) ts2"
         "results st' = results st2 @ concat (map (flatten p) ts2)"
      by blast
    have "listing d fid tok (page_files page # pages)"
      using Q Some P(1) by (rule listing.next_page)
    moreover have "list_all2 (serves d) (concat (page_files page # pages)) (ts1 @ ts2)"
      using T1(1) P(2) by (simp add: list_all2_appendI)
    ultimately show ?thesis using T1(2) P(3) R1
      by (intro exI[of _ "page_files page # pages"] exI[of _ "ts1 @ ts2"]) simp
  qed
qed

lemma collect_sound:
  assumes "collectDriveFiles n d driveId = (Returned fs, log)"
  shows "\<exists>meta t. files_get d driveId = Inr meta \<and> serves d (meta\<lparr>f_id := driveId\<rparr>) t
           \<and> fs = flatten [] t"
proof -
  let ?st0 = "\<lparr>results = [], calls = []\<rparr>"
  let ?st1 = "record_call (FilesGet driveId) (files_get d driveId) ?st0"
  obtain meta where M: "files_get d driveId = Inr meta"
    using assms by (cases "files_get d driveId") (auto simp: collectDriveFiles_def getMeta_def Let_def)
  have r1: "results ?st1 = []" by (simp add: record_call_def)
  let ?f = "meta\<lparr>f_id := driveId\<rparr>"
  show ?thesis
  proof (cases "f_mimeType meta = ''application/vnd.google-apps.folder''")
    case True
    obtain r2 st2 where W: "walkFolder_pages n d driveId (f_name meta @ ''/'') None ?st1 = (r2, st2)"
      by (cases "walkFolder_pages n d driveId (f_name meta @ ''/'') None ?st1")
    have r2: "r2 = Returned ()" and fs: "fs = results st2"
      using assms M True W
      by (auto simp: collectDriveFiles_def getMeta_def Let_def split: outcome.splits)
    from pages_sound[OF W[unfolded r2]] obtain pages ts where
      P: "listing d driveId None pages" "list_all2 (serves d) (concat pages) ts"
         "results st2 = results ?st1 @ concat (map (flatten (f_name meta @ ''/'')) ts)"
      by blast
    have "serves d ?f (Container (f_name ?f) ts)"
      by (rule serves.container[of ?f d pages ts]) (use True P in simp_all)
    then show ?thesis using M fs P(3) r1
      by (intro exI[of _ meta] exI[of _ "Container (f_name meta) ts"]) simp
  next
    case False
    obtain r2 st2 where D: "downloadFileAsBuffer d driveId (f_mimeType meta) ?st1 = (r2, st2)"
      by (cases "downloadFileAsBuffer d driveId (f_mimeType meta) ?st1")
    then obtain buf where r2: "r2 = Inr buf"
      and fs: "fs = results st2 @ [\<lparr>path = f_name meta, buffer = buf\<rparr>]"
      using assms M False
      by (auto simp: collectDriveFiles_def getMeta_def Let_def split: sum.splits)
    have "leaf_content d ?f = Inr buf"
      using D r2 download_fst[of d driveId "f_mimeType meta" "\<lparr>results = [], calls = []\<rparr>" ?st1]
      by (simp add: leaf_content_def)
    then have "serves d ?f (Leaf (f_name ?f) buf)"
      using False by (intro serves.leaf) simp_all
    moreover have "results st2 = []"
      using download_results[of d driveId "f_mimeType meta" ?st1] D r1 by simp
    ultimately show ?thesis using M fs
      by (intro exI[of _ meta] exI[of _ "Leaf (f_name meta) buf"]) simp
  qed
qed

lemma listing_unique:
  "listing d fid tok ps \<Longrightarrow> listing d fid tok ps' \<Longrightarrow> ps = ps'"
proof (induction arbitrary: ps' rule: listing.induct)
  case (last_page tok page)
  from last_page.prems last_page.hyps show ?case
    by (cases rule: listing.cases) auto
next
  case (next_page tok page t pages)
  from next_page.prems next_page.hyps(1,2) obtain pages' where
    "ps' = page_files page # pages'" "listing d fid (Some t) pages'"
    by (cases rule: listing.cases) auto
  then show ?case using next_page.IH by simp
qed

lemma list_all2_unique:
  "list_all2 (\<lambda>x y. P x y \<and> (\<forall>y'. P x y' \<longrightarrow> y = y')) xs ys \<Longrightarrow> list_all2 P xs ys'
   \<Longrightarrow> ys = ys'"
proof (induction xs arbitrary: ys ys')
  case Nil
  then show ?case by simp
next
  case (Cons x xs)
  then show ?case by (auto simp: list_all2_Cons1)
qed

lemma serves_unique: "serves d f t \<Longrightarrow> serves d f t' \<Longrightarrow> t = t'"
proof (induction arbitrary: t' rule: serves.induct)
  case (leaf f buf)
  from leaf.prems leaf.hyps show ?case
    by (cases rule: serves.cases) auto
next
  case (container f pages ts)
  from container.prems container.hyps(1) obtain pages' ts' where
    T: "t' = Container (f_name f) ts'" "listing d (f_id f) None pages'"
       "list_all2 (serves d) (concat pages') ts'"
    by (cases rule: serves.cases) auto
  have "pages' = pages" using listing_unique[OF container.hyps(2) T(2)] by simp
  with T(3) have A: "list_all2 (serves d) (concat pages) ts'" by simp
  have "ts = ts'"
    using container.IH A by (rule list_all2_unique)
  then show ?case using T(1) by simp
qed

lemma serves_list_unique:
  assumes "list_all2 (serves d) fs ts" and "list_all2 (serves d) fs ts'"
  shows "ts = ts'"
proof -
  from assms(1) have "list_all2 (\<lambda>f t. serves d f t \<and> (\<forall>t'. serves d f t' \<longrightarrow> t = t')) fs ts"
    by (rule list_all2_mono) (auto dest: serves_unique)
  then show ?thesis using assms(2) by (rule list_all2_unique)
qed

section \<open>The collector: failures\<close>

lemma extends_log_refl: "extends_log st (Returned v) st"
  by (simp add: extends_log_def log_consistent_def)

lemma extends_log_map: "extends_log st (map_outcome f res) st' = extends_log st res st'"
  by (cases res) (simp_all add: extends_log_def log_consistent_def)

lemma extends_log_trans:
  assumes "extends_log st (Returned v) st1" and "extends_log st1 res st2"
  shows "extends_log st res st2"
proof -
  from assms obtain n1 n2 where 1: "calls st1 = calls st @ n1" "list_all (\<lambda>c. snd c = None) n1"
    and 2: "calls st2 = calls st1 @ n2" "log_consistent res n2"
    by (auto simp: extends_log_def log_consistent_def)
  have "log_consistent res (n1 @ n2)"
    using 1(2) 2(2) by (cases res) (auto simp: log_consistent_def butlast_append)
  then show ?thesis using 1(1) 2(1) by (auto simp: extends_log_def)
qed

lemma record_call_extends_ok:
  "extends_log st (Returned v) (record_call c (Inr x) st)"
  by (auto simp: extends_log_def record_call_def log_consistent_def err_of_def)

lemma record_call_extends_err:
  "extends_log st (Thrown e) (record_call c (Inl e) st)"
  by (auto simp: extends_log_def record_call_def log_consistent_def err_of_def)

lemma download_extends_ok:
  "downloadFileAsBuffer d i m st = (Inr buf, st1) \<Longrightarrow> extends_log st (Returned v) st1"
  by (auto simp: downloadFileAsBuffer_def Let_def extends_log_def record_call_def
        log_consistent_def err_of_def split: option.splits if_splits)

lemma download_extends_err:
  "downloadFileAsBuffer d i m st = (Inl e, st1) \<Longrightarrow> extends_log st (Thrown e) st1"
  by (auto simp: downloadFileAsBuffer_def Let_def extends_log_def record_call_def
        log_consistent_def err_of_def split: option.splits if_splits)

lemma files_extends:
  assumes H: "\<And>fid p st res st'. walkFolder n d fid p st = (res, st') \<Longrightarrow> extends_log st res st'"
  shows "walkFolder_files n d p fs st = (res, st') \<Longrightarrow> extends_log st res st'"
proof (induction fs arbitrary: st)
  case Nil
  then show ?case by (auto simp: extends_log_refl)
next
  case (Cons f fs)
  show ?case
  proof (cases "f_mimeType f = ''application/vnd.google-apps.folder''")
    case True
    obtain r1 st1 where W: "walkFolder n d (f_id f) (p @ f_name f @ ''/'') st = (r1, st1)"
      by (cases "walkFolder n d (f_id f) (p @ f_name f @ ''/'') st")
    note E = H[OF W]
    show ?thesis
    proof (cases r1)
      case (Returned u)
      then have "walkFolder_files n d p fs st1 = (res, st')"
        using Cons.prems True W by (simp del: walkFolder.simps)
      from Cons.IH[OF this] E Returned show ?thesis by (auto intro: extends_log_trans)
    next
      case (Thrown e)
      then have "res = Thrown e" "st' = st1"
        using Cons.prems True W by (simp_all del: walkFolder.simps)
      then show ?thesis using E Thrown by simp
    next
      case OutOfFuel
      then have "res = OutOfFuel" "st' = st1"
        using Cons.prems True W by (simp_all del: walkFolder.simps)
      then show ?thesis using E OutOfFuel by simp
    qed
  next
    case False
    obtain r1 st1 where D: "downloadFileAsBuffer d (f_id f) (f_mimeType f) st = (r1, st1)"
      by (cases "downloadFileAsBuffer d (f_id f) (f_mimeType f) st")
    show ?thesis
    proof (cases r1)
      case (Inl e)
      then have "res = Thrown e" "st' = st1" using Cons.prems False D by simp_all
      then show ?thesis using download_extends_err D Inl by simp
    next
      case (Inr buf)
      then have "walkFolder_files n d p fs
                   (st1\<lparr>results := results st1 @ [\<lparr>path = p @ f_name f, buffer = buf\<rparr>]\<rparr>)
                 = (res, st')"
        using Cons.prems False D by simp
      from Cons.IH[OF this] have "extends_log st1 res st'"
        by (simp add: extends_log_def)
      moreover have "extends_log st (Returned ()) st1"
        using download_extends_ok D Inr by simp
      ultimately show ?thesis by (auto intro: extends_log_trans)
    qed
  qed
qed

lemma pages_extends:
  "walkFolder_pages n d fid p tok st = (res, st') \<Longrightarrow> extends_log st res st'"
proof (induction n arbitrary: tok st p fid res st')
  case 0
  then show ?case by (auto simp: extends_log_def log_consistent_def)
next
  case (Suc n)
  have H: "\<And>fid p st res st'. walkFolder n d fid p st = (res, st') \<Longrightarrow> extends_log st res st'"
    using Suc.IH by simp
  let ?q = "files_list d (children_query fid) tok"
  let ?st1 = "record_call (FilesList (children_query fid) tok) ?q st"
  show ?case
  proof (cases ?q)
    case (Inl e)
    then have "res = Thrown e" "st' = ?st1" using Suc.prems by (simp_all add: Let_def)
    then show ?thesis using Inl record_call_extends_err[of st e] by simp
  next
    case (Inr page)
    have E1: "extends_log st (Returned ()) ?st1"
      using Inr record_call_extends_ok by simp
    obtain r2 st2 where F: "walkFolder_files n d p (page_files page) ?st1 = (r2, st2)"
      by (cases "walkFolder_files n d p (page_files page) ?st1")
    note E2 = files_extends[OF H F]
    have E12: "extends_log st r2 st2" using E1 E2 by (rule extends_log_trans)
    show ?thesis
    proof (cases r2)
      case (Thrown e)
      then have "res = Thrown e" "st' = st2"
        using Suc.prems Inr F by (simp_all add: Let_def page_files_def)
      then show ?thesis using E12 Thrown by simp
    next
      case OutOfFuel
      then have "res = OutOfFuel" "st' = st2"
        using Suc.prems Inr F by (simp_all add: Let_def page_files_def)
      then show ?thesis using E12 OutOfFuel by simp
    next
      case (Returned u)
      have F': "walkFolder_files n d p (page_files page)
                  (record_call (FilesList (children_query fid) tok) (Inr page) st) = (Returned u, st2)"
        using F Returned Inr by simp
      have "(case next_token page of
              None \<Rightarrow> (Returned (), st2)
            | Some t \<Rightarrow> walkFolder_pages n d fid p (Some t) st2) = (res, st')"
        using Suc.prems unfolding walkFolder_pages_Suc_ok[OF Inr F'] .
      then consider (stop) "res = Returned ()" "st' = st2"
        | (more) t where "walkFolder_pages n d fid p (Some t) st2 = (res, st')"
        by (cases "next_token page") auto
      then show ?thesis
      proof cases
        case stop
        then show ?thesis using E12 Returned by simp
      next
        case more
        from Suc.IH[OF this] E12 Returned show ?thesis by (auto intro: extends_log_trans)
      qed
    qed
  qed
qed

lemma collect_log_consistent: "log_consistent (fst (collectDriveFiles n d driveId)) (snd (collectDriveFiles n d driveId))"
proof -
  let ?st0 = "\<lparr>results = [], calls = []\<rparr>"
  let ?g = "files_get d driveId"
  let ?st1 = "record_call (FilesGet driveId) ?g ?st0"
  obtain res log where C: "collectDriveFiles n d driveId = (res, log)"
    by (cases "collectDriveFiles n d driveId")
  have "\<exists>st'. extends_log ?st0 res st' \<and> log = calls st'"
  proof (cases ?g)
    case (Inl e')
    then have "res = Thrown e'" "log = calls ?st1"
      using C by (auto simp: collectDriveFiles_def getMeta_def Let_def)
    then show ?thesis using Inl record_call_extends_err[of ?st0 e'] by auto
  next
    case (Inr meta)
    have E1: "extends_log ?st0 (Returned ()) ?st1" using Inr record_call_extends_ok by simp
    show ?thesis
    proof (cases "f_mimeType meta = ''application/vnd.google-apps.folder''")
      case True
      obtain r2 st2 where W: "walkFolder n d driveId (f_name meta @ ''/'') ?st1 = (r2, st2)"
        by (cases "walkFolder n d driveId (f_name meta @ ''/'') ?st1")
      have R: "log = calls st2" "map_outcome (\<lambda>u. ()) res = r2"
        using C Inr True W
        by (auto simp: collectDriveFiles_def getMeta_def Let_def split: outcome.splits
              simp del: walkFolder.simps)
      from W have "extends_log ?st1 r2 st2" by (simp add: pages_extends)
      with E1 have "extends_log ?st0 r2 st2" by (rule extends_log_trans)
      then have "extends_log ?st0 res st2"
        using R(2) extends_log_map[of ?st0 "\<lambda>u. ()" res st2] by simp
      then show ?thesis using R(1) by blast
    next
      case False
      obtain r2 st2 where D: "downloadFileAsBuffer d driveId (f_mimeType meta) ?st1 = (r2, st2)"
        by (cases "downloadFileAsBuffer d driveId (f_mimeType meta) ?st1")
      show ?thesis
      proof (cases r2)
        case (Inl e)
        then have "res = Thrown e" "log = calls st2"
          using C Inr False D by (auto simp: collectDriveFiles_def getMeta_def Let_def)
        moreover have "extends_log ?st1 (Thrown e) st2"
          using D Inl by (simp add: download_extends_err)
        with E1 have "extends_log ?st0 (Thrown e) st2" by (rule extends_log_trans)
        ultimately show ?thesis by blast
      next
        case r2: (Inr buf)
        then obtain fs where "res = Returned fs" "log = calls st2"
          using C Inr False D by (auto simp: collectDriveFiles_def getMeta_def Let_def)
        moreover have "extends_log ?st1 (Returned fs) st2"
          using D r2 by (simp add: download_extends_ok)
        with E1 have "extends_log ?st0 (Returned fs) st2" by (rule extends_log_trans)
        ultimately show ?thesis by blast
      qed
    qed
  qed
  then show ?thesis using C by (auto simp: extends_log_def)
qed

text \<open>
  Claim C7. Whatever the fuel, if any call that the collector has made to Drive failed
  (the metadata request, a listing, an export or a download, of the root or of any
  descendant), the run has thrown the error of that call: the failed call is the last one
  made, the run was not cut short, and no collection, partial or not, is returned.
\<close>

theorem collection_all_or_nothing:
  assumes "(c, Some e) \<in> set (snd (collectDriveFiles n d driveId))"
  shows "fst (collectDriveFiles n d driveId) = Thrown e
         \<and> last (snd (collectDriveFiles n d driveId)) = (c, Some e)"
proof -
  let ?res = "fst (collectDriveFiles n d driveId)" and ?log = "snd (collectDriveFiles n d driveId)"
  have L: "log_consistent ?res ?log" by (rule collect_log_consistent)
  have allok: False if "list_all (\<lambda>c. snd c = None) ?log"
    using that assms by (auto simp: list_all_iff)
  show ?thesis
  proof (cases ?res)
    case (Returned fs)
    then show ?thesis using L allok by (simp add: log_consistent_def)
  next
    case OutOfFuel
    then show ?thesis using L allok by (simp add: log_consistent_def)
  next
    case (Thrown e')
    then have 1: "?log \<noteq> []" "snd (last ?log) = Some e'"
      "list_all (\<lambda>c. snd c = None) (butlast ?log)"
      using L by (simp_all add: log_consistent_def)
    have "(c, Some e) \<notin> set (butlast ?log)" using 1(3) by (auto simp: list_all_iff)
    moreover obtain xs x where X: "?log = xs @ [x]"
      using 1(1) by (metis append_butlast_last_id)
    ultimately have "last ?log = (c, Some e)" using assms by auto
    then show ?thesis using 1(2) Thrown by simp
  qed
qed

section \<open>The collector: pagination and paths\<close>

text \<open>
  Claim C8. When the child listing of a container comes in the pages \<open>pages\<close> (each
  reached by the token of the page before it, the last one without a token) and the
  entries of all the pages hold the trees \<open>ts\<close>, then walking the container returns
  once it has enough fuel, and every run of it that returns has appended to the results
  exactly the entries of those trees: the leaves of every page and the descendants of
  every container entry, each page once and in order.
\<close>

theorem pagination_complete:
  assumes "listing d folderId None pages" and "list_all2 (serves d) (concat pages) ts"
  shows "\<exists>n0. \<forall>p st.
           (\<forall>n\<ge>n0. \<exists>st'. walkFolder n d folderId p st = (Returned (), st'))
           \<and> (\<forall>n st'. walkFolder n d folderId p st = (Returned (), st')
                 \<longrightarrow> results st' = results st @ concat (map (flatten p) ts))"
proof -
  from assms(2) have "list_all2 (emits d) (concat pages) ts"
    by (rule list_all2_mono) (rule serves_emits)
  from emits_pages[OF assms(1) this] obtain n0 where n0:
    "\<And>n p st. n \<ge> n0 \<Longrightarrow> \<exists>st'. walkFolder_pages n d folderId p None st = (Returned (), st')"
    by blast
  have every: "results st' = results st @ concat (map (flatten p) ts)"
    if "walkFolder n d folderId p st = (Returned (), st')" for n p st st'
  proof -
    from that have "walkFolder_pages n d folderId p None st = (Returned (), st')" by simp
    from pages_sound[OF this] obtain pages' ts' where
      P: "listing d folderId None pages'" "list_all2 (serves d) (concat pages') ts'"
         "results st' = results st @ concat (map (flatten p) ts')"
      by blast
    have "pages' = pages" using listing_unique[OF P(1) assms(1)] .
    then have "ts' = ts" using serves_list_unique[OF _ assms(2)] P(2) by simp
    then show ?thesis using P(3) by simp
  qed
  show ?thesis
    using n0 every by (intro exI[of _ n0]) simp
qed

lemma collect_flatten:
  assumes "files_get d driveId = Inr meta" and "serves d (meta\<lparr>f_id := driveId\<rparr>) t"
  shows "\<exists>n0. \<forall>n\<ge>n0. \<exists>log. collectDriveFiles n d driveId = (Returned (flatten [] t), log)"
proof -
  let ?f = "meta\<lparr>f_id := driveId\<rparr>"
  let ?st1 = "record_call (FilesGet driveId) (files_get d driveId) \<lparr>results = [], calls = []\<rparr>"
  have r1: "results ?st1 = []" by (simp add: record_call_def)
  from serves_emits[OF assms(2)] obtain n0 where n0:
    "\<And>n p st. n \<ge> n0 \<Longrightarrow> \<exists>st'. walkFolder_files n d p [?f] st = (Returned (), st')
          \<and> results st' = results st @ flatten p t"
    unfolding emits_def by blast
  show ?thesis
  proof (intro exI[of _ n0] allI impI)
    fix n assume "n0 \<le> n"
    from n0[OF this, of "[]" ?st1] r1 obtain st' where
      W: "walkFolder_files n d [] [?f] ?st1 = (Returned (), st')" "results st' = flatten [] t"
      by auto
    show "\<exists>log. collectDriveFiles n d driveId = (Returned (flatten [] t), log)"
    proof (cases "f_mimeType meta = ''application/vnd.google-apps.folder''")
      case True
      with W(1) have "walkFolder n d driveId (f_name meta @ ''/'') ?st1 = (Returned (), st')"
        by (auto split: outcome.splits prod.splits)
      then show ?thesis
        using assms(1) True W(2)
        by (simp add: collectDriveFiles_def getMeta_def Let_def del: walkFolder.simps)
    next
      case False
      obtain r st2 where D: "downloadFileAsBuffer d driveId (f_mimeType meta) ?st1 = (r, st2)"
        by (cases "downloadFileAsBuffer d driveId (f_mimeType meta) ?st1")
      from W(1) False D obtain buf where
        B: "r = Inr buf" "st' = st2\<lparr>results := results st2 @ [\<lparr>path = f_name meta, buffer = buf\<rparr>]\<rparr>"
        by (auto split: sum.splits)
      then show ?thesis
        using assms(1) False D W(2)
        by (simp add: collectDriveFiles_def getMeta_def Let_def)
    qed
  qed
qed

lemma collect_returns_flatten:
  assumes "files_get d driveId = Inr meta" and "serves d (meta\<lparr>f_id := driveId\<rparr>) t"
    and "collectDriveFiles n d driveId = (Returned fs, log)"
  shows "fs = flatten [] t"
proof -
  from collect_sound[OF assms(3)] obtain meta' t' where
    "files_get d driveId = Inr meta'" "serves d (meta'\<lparr>f_id := driveId\<rparr>) t'" "fs = flatten [] t'"
    by blast
  moreover from this assms(1) have "meta' = meta" by simp
  ultimately show ?thesis using serves_unique[OF assms(2)] by simp
qed

lemma leaf_segments_nonempty: "segs \<in> set (leaf_segments t) \<Longrightarrow> segs \<noteq> []"
  by (cases t) auto

lemma join_path_Cons: "ss \<noteq> [] \<Longrightarrow> join_path (s # ss) = s @ ''/'' @ join_path ss"
  by (cases ss) auto

lemma flatten_paths:
  "map path (flatten p t) = map (\<lambda>segs. p @ join_path segs) (leaf_segments t)"
proof (induction t arbitrary: p)
  case (Leaf name buf)
  then show ?case by simp
next
  case (Container name ts)
  have "map path (concat (map (flatten (p @ name @ ''/'')) ts))
        = concat (map (\<lambda>t. map (\<lambda>segs. (p @ name @ ''/'') @ join_path segs) (leaf_segments t)) ts)"
    using Container.IH by (simp add: map_concat cong: map_cong)
  also have "\<dots> = map (\<lambda>segs. p @ name @ ''/'' @ join_path segs) (concat (map leaf_segments ts))"
    by (simp add: map_concat comp_def)
  also have "\<dots> = map (\<lambda>segs. p @ join_path (name # segs)) (concat (map leaf_segments ts))"
    using leaf_segments_nonempty by (auto simp: join_path_Cons)
  finally show ?case by (simp add: comp_def)
qed

text \<open>
  Claim C3, as amended. When Drive holds the tree \<open>t\<close> behind the root identifier, the
  collector returns once it has enough fuel, and every collection it returns has one
  entry for each leaf of the tree, in depth-first listing order, whose path is the names
  from the root down to the leaf joined by \<open>/\<close>: \<open>R/L\<close> for a leaf \<open>L\<close> directly in the
  root \<open>R\<close>, \<open>R/A/B/L\<close> for a leaf under \<open>R/A/B\<close>.
\<close>

theorem path_composition:
  assumes "files_get d driveId = Inr meta" and "serves d (meta\<lparr>f_id := driveId\<rparr>) t"
  shows "\<exists>n0. (\<forall>n\<ge>n0. \<exists>fs log. collectDriveFiles n d driveId = (Returned fs, log))
           \<and> (\<forall>n fs log. collectDriveFiles n d driveId = (Returned fs, log)
                 \<longrightarrow> map path fs = map join_path (leaf_segments t))"
proof -
  from collect_flatten[OF assms] obtain n0 where
    n0: "\<And>n. n \<ge> n0 \<Longrightarrow> \<exists>log. collectDriveFiles n d driveId = (Returned (flatten [] t), log)"
    by blast
  have "map path fs = map join_path (leaf_segments t)"
    if "collectDriveFiles n d driveId = (Returned fs, log)" for n fs log
    using collect_returns_flatten[OF assms that] flatten_paths[of "[]" t] by simp
  then show ?thesis using n0 by (intro exI[of _ n0]) blast
qed

subsection \<open>The concrete Drives\<close>

lemmas collector_defs = collectDriveFiles_def getMeta_def downloadFileAsBuffer_def record_call_def
  err_of_def pickExportMimeType_def children_query_def folder_file_def Let_def

subsection \<open>Distinct paths\<close>

lemma flatten_prefix:
  "c \<in> set (flatten p t) \<Longrightarrow> \<exists>rest. path c = p @ name_of t @ rest \<and> (rest = [] \<or> hd rest = CHR ''/'')"
proof (induction t arbitrary: p)
  case (Leaf name buf)
  then show ?case by simp
next
  case (Container name ts)
  then obtain t where t: "t \<in> set ts" "c \<in> set (flatten (p @ name @ ''/'') t)" by auto
  from Container.IH[OF this] obtain rest where "path c = (p @ name @ ''/'') @ name_of t @ rest"
    by blast
  then have "path c = p @ name_of (Container name ts) @ (CHR ''/'' # name_of t @ rest)" by simp
  then show ?case by (metis list.sel(1) list.distinct(1))
qed

lemma first_segment:
  assumes "c \<in> set (flatten p t)" "CHR ''/'' \<notin> set (name_of t)"
  shows "takeWhile (\<lambda>x. x \<noteq> CHR ''/'') (drop (length p) (path c)) = name_of t"
proof -
  from flatten_prefix[OF assms(1)] obtain rest where
    r: "path c = p @ name_of t @ rest" "rest = [] \<or> hd rest = CHR ''/''" by blast
  have d: "drop (length p) (path c) = name_of t @ rest" using r(1) by simp
  have all: "\<forall>x \<in> set (name_of t). x \<noteq> CHR ''/''" using assms(2) by auto
  show ?thesis
  proof (cases rest)
    case Nil
    then show ?thesis using d all by (simp add: takeWhile_eq_all_conv)
  next
    case (Cons x xs)
    with r(2) have "x = CHR ''/''" by simp
    then show ?thesis using d all Cons by (simp add: takeWhile_tail)
  qed
qed

lemma distinct_children:
  assumes "distinct (map name_of ts)"
    and "\<forall>t \<in> set ts. CHR ''/'' \<notin> set (name_of t) \<and> distinct (map path (flatten q t))"
  shows "distinct (map path (concat (map (flatten q) ts)))"
  using assms
proof (induction ts)
  case Nil
  then show ?case by simp
next
  case (Cons t ts)
  have d1: "distinct (map path (flatten q t))" using Cons.prems(2) by simp
  have d2: "distinct (map path (concat (map (flatten q) ts)))"
    using Cons.IH Cons.prems by simp
  have disj: "set (map path (flatten q t)) \<inter> set (map path (concat (map (flatten q) ts))) = {}"
  proof (rule ccontr)
    assume "\<not> ?thesis"
    then obtain c c' t' where c: "c \<in> set (flatten q t)" and c': "c' \<in> set (flatten q t')"
      and t': "t' \<in> set ts" and eq: "path c = path c'"
      by auto
    have "name_of t = takeWhile (\<lambda>x. x \<noteq> CHR ''/'') (drop (length q) (path c))"
      using first_segment[OF c] Cons.prems(2) by simp
    also have "\<dots> = name_of t'"
      using first_segment[OF c'] Cons.prems(2) t' eq by simp
    finally have "name_of t \<in> set (map name_of ts)" using t' by simp
    then show False using Cons.prems(1) by simp
  qed
  show ?case using d1 d2 disj by simp
qed

lemma distinct_flatten: "distinct_names t \<Longrightarrow> distinct (map path (flatten p t))"
proof (induction t arbitrary: p)
  case (Leaf name buf)
  then show ?case by simp
next
  case (Container name ts)
  have "distinct (map path (concat (map (flatten (p @ name @ ''/'')) ts)))"
  proof (rule distinct_children)
    show "distinct (map name_of ts)" using Container.prems by simp
    show "\<forall>t \<in> set ts. CHR ''/'' \<notin> set (name_of t)
            \<and> distinct (map path (flatten (p @ name @ ''/'') t))"
      using Container.prems Container.IH by simp
  qed
  then show ?case by simp
qed

lemma nonempty_flatten:
  "c \<in> set (flatten p t) \<Longrightarrow> p \<noteq> [] \<or> name_of t \<noteq> [] \<Longrightarrow> path c \<noteq> []"
  using flatten_prefix[of c p t] by auto

lemma serves_name: "serves d f t \<Longrightarrow> name_of t = f_name f"
  by (induction rule: serves.induct) simp_all

lemma serves_kind:
  "serves d f t \<Longrightarrow>
   (f_mimeType f = ''application/vnd.google-apps.folder'') = (\<exists>n ts. t = Container n ts)"
  by (induction rule: serves.induct) simp_all

text \<open>
  Claim C6, as amended. When Drive holds the tree \<open>t\<close> behind the root identifier, the
  collector returns once it has enough fuel, and in every collection it returns every
  path is non-empty if the root is a folder or has a non-empty name, and no two entries
  have the same path if in every container of the tree the children's names are pairwise
  distinct and contain no \<open>/\<close>.
\<close>

theorem paths_nonempty_distinct:
  assumes "files_get d driveId = Inr meta" and "serves d (meta\<lparr>f_id := driveId\<rparr>) t"
  shows "\<exists>n0. (\<forall>n\<ge>n0. \<exists>fs log. collectDriveFiles n d driveId = (Returned fs, log))
           \<and> (\<forall>n fs log. collectDriveFiles n d driveId = (Returned fs, log)
                 \<longrightarrow> (f_mimeType meta = ''application/vnd.google-apps.folder'' \<or> f_name meta \<noteq> []
                        \<longrightarrow> (\<forall>c \<in> set fs. path c \<noteq> []))
                     \<and> (distinct_names t \<longrightarrow> distinct (map path fs)))"
proof -
  from collect_flatten[OF assms] obtain n0 where
    n0: "\<And>n. n \<ge> n0 \<Longrightarrow> \<exists>log. collectDriveFiles n d driveId = (Returned (flatten [] t), log)"
    by blast
  have ne: "\<forall>c \<in> set (flatten [] t). path c \<noteq> []"
    if "f_mimeType meta = ''application/vnd.google-apps.folder'' \<or> f_name meta \<noteq> []"
  proof (cases t)
    case (Leaf name buf)
    then have "name \<noteq> []"
      using that serves_kind[OF assms(2)] serves_name[OF assms(2)] by simp
    then show ?thesis using Leaf by simp
  next
    case (Container name ts)
    then show ?thesis by (auto dest: nonempty_flatten)
  qed
  have di: "distinct_names t \<longrightarrow> distinct (map path (flatten [] t))"
    by (simp add: distinct_flatten)
  have "(f_mimeType meta = ''application/vnd.google-apps.folder'' \<or> f_name meta \<noteq> []
                        \<longrightarrow> (\<forall>c \<in> set fs. path c \<noteq> []))
                     \<and> (distinct_names t \<longrightarrow> distinct (map path fs))"
    if "collectDriveFiles n d driveId = (Returned fs, log)" for n fs log
    using collect_returns_flatten[OF assms that] ne di by simp
  then show ?thesis using n0 by (intro exI[of _ n0]) blast
qed

subsection \<open>The scenario of the specification\<close>

lemma demo_collect: "collectDriveFiles 3 demo_drive ''root'' = (Returned demo_files, demo_drive_log)"
  by (simp add: collector_defs demo_drive_def demo_files_def demo_drive_log_def numeral_3_eq_3)

lemma demo_listing_root:
  "listing demo_drive ''root'' None [[folder_file ''d1'' ''docs''], [], [logo_file]]"
proof -
  let ?P1 = "\<lparr>nextPageToken = Some ''p2'', files = Some [folder_file ''d1'' ''docs'']\<rparr>"
  let ?P2 = "\<lparr>nextPageToken = Some ''p3'', files = None :: drive_file list option\<rparr>"
  let ?P3 = "\<lparr>nextPageToken = None, files = Some [logo_file]\<rparr>"
  have 3: "listing demo_drive ''root'' (Some ''p3'') [page_files ?P3]"
    by (rule listing.last_page) (simp_all add: demo_drive_def next_token_def logo_file_def)
  have 2: "listing demo_drive ''root'' (Some ''p2'') (page_files ?P2 # [page_files ?P3])"
    by (rule listing.next_page[OF _ _ 3]) (simp_all add: demo_drive_def next_token_def)
  have 1: "listing demo_drive ''root'' None (page_files ?P1 # page_files ?P2 # [page_files ?P3])"
    by (rule listing.next_page[OF _ _ 2]) (simp_all add: demo_drive_def next_token_def)
  then show ?thesis by (simp add: page_files_def)
qed

lemma demo_listing_docs: "listing demo_drive ''d1'' None [[budget_file]]"
proof -
  let ?P = "\<lparr>nextPageToken = Some [], files = Some [budget_file]\<rparr>"
  have "listing demo_drive ''d1'' None [page_files ?P]"
    by (rule listing.last_page)
       (simp_all add: demo_drive_def next_token_def budget_file_def children_query_def)
  then show ?thesis by (simp add: page_files_def)
qed

lemma demo_serves_logo: "serves demo_drive logo_file (Leaf ''logo.png'' [137, 80, 78, 71])"
  using serves.leaf[of logo_file demo_drive "[137, 80, 78, 71]"]
  by (simp add: logo_file_def leaf_content_def collector_defs demo_drive_def)

lemma demo_serves_budget: "serves demo_drive budget_file (Leaf ''budget'' [97, 44, 98])"
  using serves.leaf[of budget_file demo_drive "[97, 44, 98]"]
  by (simp add: budget_file_def leaf_content_def collector_defs demo_drive_def)

lemma demo_serves_docs:
  "serves demo_drive (folder_file ''d1'' ''docs'') (Container ''docs'' [Leaf ''budget'' [97, 44, 98]])"
  using serves.container[of "folder_file ''d1'' ''docs''" demo_drive "[[budget_file]]"
          "[Leaf ''budget'' [97, 44, 98]]"] demo_listing_docs demo_serves_budget
  by (simp add: folder_file_def)

lemma demo_serves_children:
  "list_all2 (serves demo_drive) (concat [[folder_file ''d1'' ''docs''], [], [logo_file]])
     [Container ''docs'' [Leaf ''budget'' [97, 44, 98]], Leaf ''logo.png'' [137, 80, 78, 71]]"
  using demo_serves_docs demo_serves_logo by simp

lemma demo_serves: "serves demo_drive (folder_file ''root'' ''proj'') demo_tree"
  using serves.container[of "folder_file ''root'' ''proj''" demo_drive
          "[[folder_file ''d1'' ''docs''], [], [logo_file]]"
          "[Container ''docs'' [Leaf ''budget'' [97, 44, 98]], Leaf ''logo.png'' [137, 80, 78, 71]]"]
    demo_listing_root demo_serves_children
  by (simp add: folder_file_def demo_tree_def)

theorem pagination_complete_witness:
  "listing demo_drive ''root'' None [[folder_file ''d1'' ''docs''], [], [logo_file]]
   \<and> list_all2 (serves demo_drive) (concat [[folder_file ''d1'' ''docs''], [], [logo_file]])
        [Container ''docs'' [Leaf ''budget'' [97, 44, 98]], Leaf ''logo.png'' [137, 80, 78, 71]]
   \<and> (\<exists>n0. \<forall>p st.
           (\<forall>n\<ge>n0. \<exists>st'. walkFolder n demo_drive ''root'' p st = (Returned (), st'))
           \<and> (\<forall>n st'. walkFolder n demo_drive ''root'' p st = (Returned (), st')
                 \<longrightarrow> results st' = results st @
                       [\<lparr>path = p @ ''docs/budget'', buffer = [97, 44, 98]\<rparr>,
                        \<lparr>path = p @ ''logo.png'', buffer = [137, 80, 78, 71]\<rparr>]))"
  using pagination_complete[OF demo_listing_root demo_serves_children]
    demo_listing_root demo_serves_children
  by simp

theorem path_composition_witness:
  "files_get demo_drive ''root'' = Inr (folder_file ''root'' ''proj'')
   \<and> serves demo_drive (folder_file ''root'' ''proj'') demo_tree
   \<and> (\<exists>n0. (\<forall>n\<ge>n0. \<exists>fs log. collectDriveFiles n demo_drive ''root'' = (Returned fs, log))
           \<and> (\<forall>n fs log. collectDriveFiles n demo_drive ''root'' = (Returned fs, log)
                 \<longrightarrow> map path fs = [''proj/docs/budget'', ''proj/logo.png'']))
   \<and> collectDriveFiles 3 demo_drive ''root'' = (Returned demo_files, demo_drive_log)"
proof -
  have g: "files_get demo_drive ''root'' = Inr (folder_file ''root'' ''proj'')"
    by (simp add: demo_drive_def)
  have s: "serves demo_drive ((folder_file ''root'' ''proj'')\<lparr>f_id := ''root''\<rparr>) demo_tree"
    using demo_serves by (simp add: folder_file_def)
  show ?thesis
    using path_composition[OF g s] g demo_serves demo_collect
    by (simp add: demo_tree_def)
qed

text \<open>
  Claim C3 as stated fails: the folder \<open>R\<close> holds two files named \<open>L\<close>, and the collection
  has two entries with the path \<open>R/L\<close>.
\<close>

theorem path_composition_counterexample:
  "collectDriveFiles 1 dup_drive ''r''
     = (Returned [\<lparr>path = ''R/L'', buffer = [1]\<rparr>, \<lparr>path = ''R/L'', buffer = [2]\<rparr>],
             [(FilesGet ''r'', None), (FilesList (children_query ''r'') None, None),
              (FilesGetMedia ''a'', None), (FilesGetMedia ''b'', None)])
   \<and> length (filter (\<lambda>c. path c = ''R/L'')
               [\<lparr>path = ''R/L'', buffer = [1]\<rparr>, \<lparr>path = ''R/L'', buffer = [2]\<rparr>]) = 2"
  by (simp add: collector_defs dup_drive_def)

theorem paths_nonempty_distinct_witness:
  "files_get demo_drive ''root'' = Inr (folder_file ''root'' ''proj'')
   \<and> serves demo_drive (folder_file ''root'' ''proj'') demo_tree
   \<and> distinct_names demo_tree
   \<and> (\<exists>n0. (\<forall>n\<ge>n0. \<exists>fs log. collectDriveFiles n demo_drive ''root'' = (Returned fs, log))
           \<and> (\<forall>n fs log. collectDriveFiles n demo_drive ''root'' = (Returned fs, log)
                 \<longrightarrow> list_all (\<lambda>c. path c \<noteq> []) fs \<and> distinct (map path fs)))
   \<and> collectDriveFiles 3 demo_drive ''root'' = (Returned demo_files, demo_drive_log)"
proof -
  have g: "files_get demo_drive ''root'' = Inr (folder_file ''root'' ''proj'')"
    by (simp add: demo_drive_def)
  have s: "serves demo_drive ((folder_file ''root'' ''proj'')\<lparr>f_id := ''root''\<rparr>) demo_tree"
    using demo_serves by (simp add: folder_file_def)
  have dn: "distinct_names demo_tree" by (simp add: demo_tree_def)
  show ?thesis
    using paths_nonempty_distinct[OF g s] g demo_serves dn demo_collect
    by (simp add: folder_file_def list_all_iff)
qed

text \<open>
  Claim C6 as stated fails on the same folder: the paths of the collection are not
  distinct.
\<close>

theorem paths_distinct_counterexample:
  "fst (collectDriveFiles 1 dup_drive ''r'')
     = Returned [\<lparr>path = ''R/L'', buffer = [1]\<rparr>, \<lparr>path = ''R/L'', buffer = [2]\<rparr>]
   \<and> \<not> distinct (map path [\<lparr>path = ''R/L'', buffer = [1]\<rparr>, \<lparr>path = ''R/L'', buffer = [2]\<rparr>])"
  by (simp add: collector_defs dup_drive_def)

theorem collection_all_or_nothing_witness:
  "(FilesGetMedia ''f2'', Some (Rejected ''Forbidden''))
      \<in> set (snd (collectDriveFiles 3 failing_drive ''root''))
   \<and> collectDriveFiles 3 failing_drive ''root''
     = (Thrown (Rejected ''Forbidden''),
             [(FilesGet ''root'', None),
              (FilesList (children_query ''root'') None, None),
              (FilesList (children_query ''d1'') None, None),
              (FilesExport ''f1'' ''text/csv'', None),
              (FilesList (children_query ''root'') (Some ''p2''), None),
              (FilesList (children_query ''root'') (Some ''p3''), None),
              (FilesGetMedia ''f2'', Some (Rejected ''Forbidden''))])"
proof -
  have run: "collectDriveFiles 3 failing_drive ''root''
     = (Thrown (Rejected ''Forbidden''),
             [(FilesGet ''root'', None),
              (FilesList (children_query ''root'') None, None),
              (FilesList (children_query ''d1'') None, None),
              (FilesExport ''f1'' ''text/csv'', None),
              (FilesList (children_query ''root'') (Some ''p2''), None),
              (FilesList (children_query ''root'') (Some ''p3''), None),
              (FilesGetMedia ''f2'', Some (Rejected ''Forbidden''))])"
    by (simp add: collector_defs failing_drive_def demo_drive_def numeral_3_eq_3)
  have m: "(FilesGetMedia ''f2'', Some (Rejected ''Forbidden''))
             \<in> set (snd (collectDriveFiles 3 failing_drive ''root''))"
    by (simp add: run)
  show ?thesis
    using collection_all_or_nothing[OF m] m run by simp
qed

section \<open>The export mapping\<close>

text \<open>
  Claim C4. The export format is a fixed function of the content type: plain text for a
  native document, CSV for a native spreadsheet, PDF for a native presentation, and none
  for any other type. A file of one of the three native types is downloaded by an export
  request in that format; a file of any other type is downloaded by a request for its raw
  bytes, and what the download yields is what that request yielded, unchanged.
\<close>

theorem export_mapping:
  "pickExportMimeType ''application/vnd.google-apps.document'' = Some ''text/plain''
   \<and> pickExportMimeType ''application/vnd.google-apps.spreadsheet'' = Some ''text/csv''
   \<and> pickExportMimeType ''application/vnd.google-apps.presentation'' = Some ''application/pdf''
   \<and> fst (downloadFileAsBuffer d ident ''application/vnd.google-apps.document'' st)
         = files_export d ident ''text/plain''
   \<and> fst (downloadFileAsBuffer d ident ''application/vnd.google-apps.spreadsheet'' st)
         = files_export d ident ''text/csv''
   \<and> fst (downloadFileAsBuffer d ident ''application/vnd.google-apps.presentation'' st)
         = files_export d ident ''application/pdf''
   \<and> (mimeType \<notin> {''application/vnd.google-apps.document'',
                     ''application/vnd.google-apps.spreadsheet'',
                     ''application/vnd.google-apps.presentation''}
        \<longrightarrow> pickExportMimeType mimeType = None
            \<and> fst (downloadFileAsBuffer d ident mimeType st) = files_get_media d ident)"
  by (simp add: pickExportMimeType_def downloadFileAsBuffer_def Let_def)

theorem export_mapping_witness:
  "''image/png'' \<notin> {''application/vnd.google-apps.document'',
                     ''application/vnd.google-apps.spreadsheet'',
                     ''application/vnd.google-apps.presentation''}
   \<and> pickExportMimeType ''image/png'' = None
   \<and> fst (downloadFileAsBuffer demo_drive ''f2'' ''image/png'' \<lparr>results = [], calls = []\<rparr>)
       = Inr [137, 80, 78, 71]
   \<and> fst (downloadFileAsBuffer demo_drive ''f1'' ''application/vnd.google-apps.spreadsheet''
            \<lparr>results = [], calls = []\<rparr>) = Inr [97, 44, 98]"
  using export_mapping[where mimeType = "''image/png''" and d = demo_drive and ident = "''f2''"
          and st = "\<lparr>results = [], calls = []\<rparr>"]
    export_mapping[where mimeType = "''image/png''" and d = demo_drive and ident = "''f1''"
          and st = "\<lparr>results = [], calls = []\<rparr>"]
  by (simp add: demo_drive_def)

section \<open>Drive identifiers\<close>

lemma takeWhile_run:
  "s = pre @ m @ post \<Longrightarrow> list_all is_id_char m \<Longrightarrow> pre = [] \<Longrightarrow>
   length m \<le> length (takeWhile is_id_char s)"
proof -
  assume a: "s = pre @ m @ post" "list_all is_id_char m" "pre = []"
  then have "takeWhile is_id_char s = m @ takeWhile is_id_char post"
    by (simp add: takeWhile_append2 list_all_iff)
  then show ?thesis by simp
qed

lemma has_long_run_Cons:
  assumes "has_long_run (c # cs)" "length (takeWhile is_id_char (c # cs)) < 25"
  shows "has_long_run cs"
proof -
  from assms(1) obtain pre m post where
    p: "c # cs = pre @ m @ post" "25 \<le> length m" "list_all is_id_char m"
    unfolding has_long_run_def by blast
  show ?thesis
  proof (cases pre)
    case Nil
    with takeWhile_run[OF p(1) p(3)] p(2) assms(2) show ?thesis by simp
  next
    case (Cons x pre')
    with p(1) have "cs = pre' @ m @ post" by simp
    then show ?thesis using p(2,3) unfolding has_long_run_def by blast
  qed
qed

lemma match_id_None: "match_id s = None \<longleftrightarrow> \<not> has_long_run s"
proof (induction s)
  case Nil
  then show ?case by (simp add: has_long_run_def)
next
  case (Cons c cs)
  let ?run = "takeWhile is_id_char (c # cs)"
  show ?case
  proof (cases "25 \<le> length ?run")
    case True
    have "c # cs = [] @ ?run @ dropWhile is_id_char (c # cs)" by simp
    moreover have "list_all is_id_char ?run"
      by (simp add: list_all_iff del: takeWhile.simps) (meson set_takeWhileD)
    ultimately have "has_long_run (c # cs)"
      using True unfolding has_long_run_def by blast
    then show ?thesis using True by (simp add: Let_def)
  next
    case False
    then have lt: "length ?run < 25" by simp
    have "has_long_run (c # cs) \<longleftrightarrow> has_long_run cs"
    proof
      assume "has_long_run (c # cs)"
      then show "has_long_run cs" using lt by (rule has_long_run_Cons)
    next
      assume "has_long_run cs"
      then obtain pre m post where "cs = pre @ m @ post" "25 \<le> length m" "list_all is_id_char m"
        unfolding has_long_run_def by blast
      then have "c # cs = (c # pre) @ m @ post" by simp
      then show "has_long_run (c # cs)"
        using \<open>25 \<le> length m\<close> \<open>list_all is_id_char m\<close> unfolding has_long_run_def by blast
    qed
    then show ?thesis using False Cons.IH by (simp add: Let_def)
  qed
qed

lemma match_id_Some: "match_id s = Some m \<Longrightarrow> first_long_run s m"
proof (induction s)
  case Nil
  then show ?case by simp
next
  case (Cons c cs)
  let ?run = "takeWhile is_id_char (c # cs)"
  let ?rest = "dropWhile is_id_char (c # cs)"
  show ?case
  proof (cases "25 \<le> length ?run")
    case True
    then have m: "m = ?run" using Cons.prems by (simp add: Let_def)
    have 1: "c # cs = [] @ m @ ?rest" using m by simp
    have 2: "list_all is_id_char m"
      unfolding m by (simp add: list_all_iff del: takeWhile.simps) (meson set_takeWhileD)
    have 3: "?rest = [] \<or> \<not> is_id_char (hd ?rest)"
      by (metis hd_dropWhile)
    have 4: "\<not> has_long_run []" by (simp add: has_long_run_def)
    show ?thesis
      unfolding first_long_run_def
      using 1 2 3 4 True m by (intro exI[of _ "[]"] exI[of _ ?rest]) simp
  next
    case False
    then have lt: "length ?run < 25" by simp
    from False Cons.prems have "match_id cs = Some m" by (simp add: Let_def)
    from Cons.IH[OF this] obtain pre post where
      p: "cs = pre @ m @ post" "25 \<le> length m" "list_all is_id_char m"
         "pre = [] \<or> \<not> is_id_char (last pre)" "post = [] \<or> \<not> is_id_char (hd post)"
         "\<not> has_long_run pre"
      unfolding first_long_run_def by blast
    have a: "c # cs = (c # pre) @ m @ post" using p(1) by simp
    have b: "\<not> is_id_char (last (c # pre))"
    proof (cases "pre = []")
      case True
      show ?thesis
      proof
        assume "is_id_char (last (c # pre))"
        then have "is_id_char c" using True by simp
        then have "list_all is_id_char (c # m)" using p(3) by simp
        moreover have "c # cs = [] @ (c # m) @ post" using p(1) True by simp
        ultimately have "length (c # m) \<le> length ?run"
          using takeWhile_run by blast
        then show False using p(2) lt by simp
      qed
    next
      case False
      then show ?thesis using p(4) by simp
    qed
    have c: "\<not> has_long_run (c # pre)"
    proof
      assume h: "has_long_run (c # pre)"
      have "takeWhile is_id_char (c # pre) = takeWhile is_id_char ((c # pre) @ m @ post)"
      proof -
        have "\<exists>x \<in> set (c # pre). \<not> is_id_char x" using b by (metis last_in_set list.distinct(1))
        then show ?thesis by (metis takeWhile_append1)
      qed
      then have "length (takeWhile is_id_char (c # pre)) < 25" using lt a by simp
      from has_long_run_Cons[OF h this] show False using p(6) by simp
    qed
    show ?thesis
      unfolding first_long_run_def
      using a b c p(2,3,5) by (intro exI[of _ "c # pre"] exI[of _ post]) simp
  qed
qed

lemma match_id_length: "match_id s = Some m \<Longrightarrow> 25 \<le> length m"
  using match_id_Some unfolding first_long_run_def by blast

lemma extractDriveId_Some_nonempty:
  "extractDriveId v = Inr (Some ident) \<Longrightarrow> ident \<noteq> [] \<and> truthy v"
proof (cases v)
  case (JStr s)
  assume "extractDriveId v = Inr (Some ident)"
  then show ?thesis
    using JStr match_id_length[of s ident]
    by (auto split: if_splits option.splits)
qed (auto split: if_splits)

lemma create_repo_never_cannot_extract:
  "create_repo n d fetch sv req = Some out \<Longrightarrow> Send 400 CouldNotExtract \<notin> set (response out)"
proof -
  assume a: "create_repo n d fetch sv req = Some out"
  have x: "extractDriveId (driveLinkOrId req) = Inr None \<Longrightarrow> \<not> truthy (driveLinkOrId req)"
    by (cases "driveLinkOrId req") (auto split: if_splits option.splits)
  show ?thesis
    using a x extractDriveId_Some_nonempty[of "driveLinkOrId req"]
    by (auto simp: create_repo_def Let_def
          split: if_splits sum.splits option.splits prod.splits outcome.splits)
qed

text \<open>
  Claim C9. On a non-empty string \<^verbatim>\<open>extractDriveId\<close> returns a non-empty string,
  never \<^verbatim>\<open>null\<close>: the first maximal run of 25 or more identifier characters if
  the string has such a run, and the string itself otherwise. So a request whose
  \<^verbatim>\<open>driveLinkOrId\<close> is a non-empty string is never answered with the
  ``could not extract'' page.
\<close>

theorem extractDriveId_total:
  assumes "s \<noteq> []"
  shows "(\<exists>ident. extractDriveId (JStr s) = Inr (Some ident) \<and> ident \<noteq> []
            \<and> (first_long_run s ident \<or> \<not> has_long_run s \<and> ident = s))
         \<and> (driveLinkOrId req = JStr s \<longrightarrow>
              (\<forall>out. create_repo n d fetch sv req = Some out
                 \<longrightarrow> Send 400 CouldNotExtract \<notin> set (response out)))"
proof -
  have "\<exists>ident. extractDriveId (JStr s) = Inr (Some ident) \<and> ident \<noteq> []
            \<and> (first_long_run s ident \<or> \<not> has_long_run s \<and> ident = s)"
  proof (cases "match_id s")
    case None
    then show ?thesis using assms match_id_None[of s] by simp
  next
    case (Some m)
    then show ?thesis using assms match_id_Some[OF Some] match_id_length[OF Some] by auto
  qed
  moreover have "\<forall>out. create_repo n d fetch sv req = Some out
                 \<longrightarrow> Send 400 CouldNotExtract \<notin> set (response out)"
    by (simp add: create_repo_never_cannot_extract)
  ultimately show ?thesis by simp
qed

section \<open>The handler on concrete requests\<close>

lemma demo_link_id:
  "extractDriveId (JStr demo_link) = Inr (Some ''1AbCdEfGhIjKlMnOpQrStUvWxYz_0123-xy'')"
  by (simp add: demo_link_def is_id_char_def Let_def)

lemma root_id: "extractDriveId (JStr ''root'') = Inr (Some ''root'')"
  by (simp add: is_id_char_def Let_def)

lemma handler_demo:
  "create_repo 3 demo_drive demo_fetch 0 (demo_request ''root'') =
     Some \<lparr>response = [WriteHead 200, Write Collecting, Write (Collected 2),
                        Write (Done (JStr ''https://github.com/octo/mirror'')), End],
           drive_calls = demo_drive_log,
           github = snd demo_run\<rparr>"
proof -
  note c = demo_collect
  have t: "trim '' ghp'' = ''ghp''" "trim ''mirror '' = ''mirror''"
    by (simp_all add: trim_def is_space_def)
  have l: "length demo_files = 2" by (simp add: demo_files_def)
  show ?thesis
    by (simp add: create_repo_def demo_request_def root_id c t l
          demo_run_value[unfolded demo_run_def] demo_run_value del: extractDriveId.simps)
qed

theorem extractDriveId_total_witness:
  "demo_link \<noteq> []
   \<and> extractDriveId (JStr demo_link) = Inr (Some ''1AbCdEfGhIjKlMnOpQrStUvWxYz_0123-xy'')
   \<and> first_long_run demo_link ''1AbCdEfGhIjKlMnOpQrStUvWxYz_0123-xy''
   \<and> extractDriveId (JStr ''root'') = Inr (Some ''root'')
   \<and> list_all (\<lambda>a. a \<noteq> Send 400 CouldNotExtract)
        (response (the (create_repo 3 demo_drive demo_fetch 0 (demo_request ''root''))))"
proof -
  have ne: "demo_link \<noteq> []" by (simp add: demo_link_def)
  have neq: "''1AbCdEfGhIjKlMnOpQrStUvWxYz_0123-xy'' \<noteq> demo_link" by (simp add: demo_link_def)
  have 1: "first_long_run demo_link ''1AbCdEfGhIjKlMnOpQrStUvWxYz_0123-xy''"
    using extractDriveId_total[OF ne, of "demo_request demo_link" 3 demo_drive demo_fetch 0] neq
    by (simp add: demo_link_id del: extractDriveId.simps)
  have 2: "list_all (\<lambda>a. a \<noteq> Send 400 CouldNotExtract)
        (response (the (create_repo 3 demo_drive demo_fetch 0 (demo_request ''root''))))"
    using extractDriveId_total[of "''root''" "demo_request ''root''" 3 demo_drive demo_fetch 0]
    by (simp add: handler_demo root_id del: extractDriveId.simps)
  show ?thesis using ne 1 2 demo_link_id root_id by simp
qed

text \<open>
  Claim C10. When the handler reaches the collector and the collector returns an empty
  collection, the handler writes the ``no files found'' page and ends the response, and
  the hosting service has received no call and is in the state it was in.
\<close>

theorem empty_collection_skips_publisher:
  assumes "truthy (googleTokens req)" "truthy (githubToken req)" "truthy (repoName req)"
    and "extractDriveId (driveLinkOrId req) = Inr (Some driveId)"
    and "collectDriveFiles n d driveId = (Returned [], log)"
  shows "create_repo n d fetch s req =
           Some \<lparr>response = [WriteHead 200, Write Collecting, Write NoFilesFound, End],
                 drive_calls = log,
                 github = \<lparr>service = s, trace = []\<rparr>\<rparr>"
  using assms extractDriveId_Some_nonempty[OF assms(4)]
  by (simp add: create_repo_def)

theorem empty_collection_skips_publisher_witness:
  "truthy (googleTokens (demo_request ''e'')) \<and> truthy (githubToken (demo_request ''e''))
   \<and> truthy (repoName (demo_request ''e''))
   \<and> extractDriveId (driveLinkOrId (demo_request ''e'')) = Inr (Some ''e'')
   \<and> collectDriveFiles 1 empty_drive ''e''
       = (Returned [], [(FilesGet ''e'', None), (FilesList (children_query ''e'') None, None)])
   \<and> create_repo 1 empty_drive demo_fetch 0 (demo_request ''e'') =
           Some \<lparr>response = [WriteHead 200, Write Collecting, Write NoFilesFound, End],
                 drive_calls = [(FilesGet ''e'', None), (FilesList (children_query ''e'') None, None)],
                 github = \<lparr>service = 0, trace = []\<rparr>\<rparr>"
proof -
  have 1: "truthy (googleTokens (demo_request ''e''))" "truthy (githubToken (demo_request ''e''))"
    "truthy (repoName (demo_request ''e''))"
    by (simp_all add: demo_request_def)
  have 2: "extractDriveId (driveLinkOrId (demo_request ''e'')) = Inr (Some ''e'')"
    by (simp add: demo_request_def is_id_char_def Let_def)
  have 3: "collectDriveFiles 1 empty_drive ''e''
       = (Returned [], [(FilesGet ''e'', None), (FilesList (children_query ''e'') None, None)])"
    by (simp add: collector_defs empty_drive_def)
  show ?thesis
    using empty_collection_skips_publisher[OF 1 2 3, of demo_fetch 0] 1 2 3 by simp
qed

end
